theory Spec2Isabelle
  imports Complex_Main "HOL-Library.Word" "HOL-Library.Signed_Division" "HOL-Library.Log_Nat"
begin

unbundle bit_operations_syntax

section \<open>The connection cache of rpcCache.c\<close>

text \<open>
  The model is sequential: every operation runs from beginning to end while it holds the
  spin lock of its bucket (\<open>rpcLockCache\<close>, \<open>rpcUnlockCache\<close>), so the lock array
  \<open>lockedBy\<close> only appears through the bounds of its index. The clock
  \<open>taosGetTimestampMs\<close> is read once at the start of an operation; the value read is an
  argument of the model.
\<close>

subsection \<open>Data\<close>

text \<open>A \<open>void *\<close>; the null pointer is 0.\<close>

type_synonym ptr = nat

text \<open>
  \<open>struct SConnHash\<close>. The links \<open>prev\<close> and \<open>next\<close> are the position of the node
  in the list of its bucket: a bucket is the list of its nodes from the head on. The
  \<open>char connType\<close> holds the \<open>int8_t\<close> argument; \<open>char\<close> is taken as signed.
\<close>

record SConnHash =
  ip :: "32 word"
  port :: "16 word"
  connType :: "8 word"
  data :: ptr
  time :: "64 word"

text \<open>
  Modelled from the spec: the slab allocator of tmempool (\<open>taosMemPoolInit\<close>,
  \<open>taosMemPoolMalloc\<close>, \<open>taosMemPoolFree\<close>) is not among the sources. The spec gives it a
  fixed number of slots set at creation, \<open>acquire() -> slot or failure\<close> with failure on
  exhaustion, and \<open>release(slot)\<close>. Only the number of free slots is kept; a failed
  \<open>taosMemPoolMalloc\<close> is \<open>None\<close>, the null pointer of the C interface.
\<close>

record mpool =
  numOfBlock :: nat
  numOfFree :: nat

text \<open>Modelled from the spec: \<open>taosMemPoolInit\<close>, all slots free at creation.\<close>

definition taosMemPoolInit :: "int \<Rightarrow> mpool" where
  "taosMemPoolInit numOfBlock' = \<lparr>numOfBlock = nat numOfBlock', numOfFree = nat numOfBlock'\<rparr>"

text \<open>
  Modelled from the spec: \<open>taosMemPoolMalloc\<close>, the spec's \<open>acquire\<close>, which fails when
  no slot is free.
\<close>

definition taosMemPoolMalloc :: "mpool \<Rightarrow> mpool option" where
  "taosMemPoolMalloc pool =
     (if numOfFree pool = 0 then None else Some (pool\<lparr>numOfFree := numOfFree pool - 1\<rparr>))"

text \<open>Modelled from the spec: \<open>taosMemPoolFree\<close>, the spec's \<open>release\<close>.\<close>

definition taosMemPoolFree :: "mpool \<Rightarrow> mpool" where
  "taosMemPoolFree pool = pool\<lparr>numOfFree := numOfFree pool + 1\<rparr>"

text \<open>
  \<open>struct SConnCache\<close>. \<open>connHashList\<close>, \<open>count\<close> and \<open>lockedBy\<close> are arrays of
  \<open>maxSessions\<close> elements. \<open>keepTimer\<close> is an \<open>int64_t\<close> that the code only uses in
  \<open>keepTimer + pNode->time\<close>, where it is converted to \<open>uint64_t\<close>: it is kept as the
  64-bit pattern. The \<open>int\<close> counters stay below the pool size and are unbounded
  integers here; the counter \<open>total\<close> is the field \<open>totalConns\<close>, since \<open>total\<close> is a
  constant of HOL. The field \<open>cleaned\<close> is not in the C struct: it records, in order, the
  arguments of the calls of the callback \<open>cleanFp\<close>.
\<close>

record SConnCache =
  connHashList :: "SConnHash list list"
  connHashMemPool :: mpool
  maxSessions :: int
  totalConns :: int
  count :: "int list"
  keepTimer :: "64 word"
  pTimer :: ptr
  cleaned :: "ptr list"

text \<open>
  What ends an operation without a result: a failed \<open>assert\<close>, the write through the null
  pointer that \<open>taosMemPoolMalloc\<close> returned, \<open>hash % 0\<close>, and an index outside the arrays of
  \<open>maxSessions\<close> elements.
\<close>

datatype error = AssertFailed | NullDereference | DivisionByZero | OutOfBounds

subsection \<open>Operations\<close>

text \<open>
  \<open>rpcOpenConnCache\<close>, where the three allocations succeed (where one fails the function
  returns \<open>NULL\<close> and there is no cache). \<open>tmr\<close> is the handle that \<open>taosTmrReset\<close>
  stores in \<open>pTimer\<close>.
\<close>

definition rpcOpenConnCache :: "int \<Rightarrow> 64 word \<Rightarrow> ptr \<Rightarrow> SConnCache" where
  "rpcOpenConnCache maxSessions' keepTimer' tmr =
     \<lparr>connHashList = replicate (nat maxSessions') [],
      connHashMemPool = taosMemPoolInit maxSessions',
      maxSessions = maxSessions',
      totalConns = 0,
      count = replicate (nat maxSessions') 0,
      keepTimer = keepTimer',
      pTimer = tmr,
      cleaned = []\<rparr>"

text \<open>
  \<open>rpcHashConn\<close>. \<open>hash\<close> is an \<open>int\<close>; the four summands are at most 65535, 65535,
  65535 and 127, so the sum does not overflow. \<open>%\<close> is the remainder of C, which
  truncates towards zero and has the sign of the dividend: \<open>smod\<close>.
\<close>

definition rpcHashConn :: "SConnCache \<Rightarrow> 32 word \<Rightarrow> 16 word \<Rightarrow> 8 word \<Rightarrow> error + int" where
  "rpcHashConn pCache ip' port' connType' =
     (let hash = uint (drop_bit 16 ip');
          hash = hash + uint (ucast (ip' AND 0xFFFF) :: 16 word);
          hash = hash + uint port';
          hash = hash + sint connType'
      in if maxSessions pCache = 0 then Inl DivisionByZero
         else Inr (hash smod maxSessions pCache))"

text \<open>The test \<open>time >= pCache->keepTimer + pNode->time\<close>, in \<open>uint64_t\<close>.\<close>

definition expired :: "SConnCache \<Rightarrow> SConnHash \<Rightarrow> 64 word \<Rightarrow> bool" where
  "expired pCache pNode time' \<longleftrightarrow> keepTimer pCache + time pNode \<le> time'"

text \<open>
  The \<open>while (pNode)\<close> loop of \<open>rpcRemoveExpiredNodes\<close>: the callback, the two counters and
  the release of the slot, for each node from \<open>pNode\<close> to the tail.
\<close>

fun removeNodes :: "SConnCache \<Rightarrow> SConnHash list \<Rightarrow> nat \<Rightarrow> SConnCache" where
  "removeNodes pCache [] hash = pCache"
| "removeNodes pCache (pNode # pNext) hash =
     removeNodes
       (pCache\<lparr>cleaned := cleaned pCache @ [data pNode],
               totalConns := totalConns pCache - 1,
               count := (count pCache)[hash := count pCache ! hash - 1],
               connHashMemPool := taosMemPoolFree (connHashMemPool pCache)\<rparr>)
       pNext hash"

text \<open>
  \<open>rpcRemoveExpiredNodes\<close>. \<open>pNode\<close> is the node at position \<open>i\<close> of bucket \<open>hash\<close>, and
  \<open>NULL\<close> when the list has no such position. After the loop \<open>pPrev->next = NULL\<close>, or the
  head of the bucket is \<open>NULL\<close>: the list is cut before position \<open>i\<close>.
\<close>

definition rpcRemoveExpiredNodes :: "SConnCache \<Rightarrow> nat \<Rightarrow> nat \<Rightarrow> 64 word \<Rightarrow> SConnCache" where
  "rpcRemoveExpiredNodes pCache i hash time' =
     (let nodes = connHashList pCache ! hash
      in if length nodes \<le> i \<or> \<not> expired pCache (nodes ! i) time' then pCache
         else let pCache' = removeNodes pCache (drop i nodes) hash
              in pCache'\<lparr>connHashList := (connHashList pCache')[hash := take i nodes]\<rparr>)"

text \<open>
  \<open>rpcAddConnIntoCache\<close>. The slot is taken from the pool and written before the bucket is
  locked; the code does not test the pointer it gets.
\<close>

definition rpcAddConnIntoCache ::
  "SConnCache \<Rightarrow> ptr \<Rightarrow> 32 word \<Rightarrow> 16 word \<Rightarrow> 8 word \<Rightarrow> 64 word \<Rightarrow> error + SConnCache" where
  "rpcAddConnIntoCache pCache data' ip' port' connType' time' =
     (if data' = 0 then Inl AssertFailed
      else case rpcHashConn pCache ip' port' connType' of
        Inl e \<Rightarrow> Inl e
      | Inr hash \<Rightarrow>
          (case taosMemPoolMalloc (connHashMemPool pCache) of
             None \<Rightarrow> Inl NullDereference
           | Some pool \<Rightarrow>
               if hash < 0 \<or> maxSessions pCache \<le> hash then Inl OutOfBounds
               else
                 let h = nat hash;
                     pNode = \<lparr>ip = ip', port = port', connType = connType',
                              data = data', time = time'\<rparr>;
                     pCache1 = pCache\<lparr>connHashMemPool := pool,
                                 connHashList := (connHashList pCache)[h := pNode # connHashList pCache ! h],
                                 count := (count pCache)[h := count pCache ! h + 1]\<rparr>;
                     pCache2 = rpcRemoveExpiredNodes pCache1 1 h time'
                 in Inr (pCache2\<lparr>totalConns := totalConns pCache2 + 1\<rparr>)))"

text \<open>
  The \<open>while (pNode)\<close> loop of \<open>rpcGetConnFromCache\<close>, on the nodes from position \<open>i\<close>
  on: it leaves at the first node that has reached the keep time, at the first node of the
  key, or at the end of the list.
\<close>

datatype found = AtEnd | Stale nat | Hit nat

fun findNode ::
  "SConnCache \<Rightarrow> SConnHash list \<Rightarrow> nat \<Rightarrow> 32 word \<Rightarrow> 16 word \<Rightarrow> 8 word \<Rightarrow> 64 word \<Rightarrow> found" where
  "findNode pCache [] i ip' port' connType' time' = AtEnd"
| "findNode pCache (pNode # pNext) i ip' port' connType' time' =
     (if expired pCache pNode time' then Stale i
      else if ip pNode = ip' \<and> port pNode = port' \<and> connType pNode = connType' then Hit i
      else findNode pCache pNext (Suc i) ip' port' connType' time')"

text \<open>\<open>rpcGetConnFromCache\<close>; the result is \<open>pData\<close>, null for a miss.\<close>

definition rpcGetConnFromCache ::
  "SConnCache \<Rightarrow> 32 word \<Rightarrow> 16 word \<Rightarrow> 8 word \<Rightarrow> 64 word \<Rightarrow> error + (ptr \<times> SConnCache)" where
  "rpcGetConnFromCache pCache ip' port' connType' time' =
     (case rpcHashConn pCache ip' port' connType' of
        Inl e \<Rightarrow> Inl e
      | Inr hash \<Rightarrow>
          if hash < 0 \<or> maxSessions pCache \<le> hash then Inl OutOfBounds
          else
            let h = nat hash
            in (case findNode pCache (connHashList pCache ! h) 0 ip' port' connType' time' of
                  AtEnd \<Rightarrow> Inr (0, pCache)
                | Stale i \<Rightarrow> Inr (0, rpcRemoveExpiredNodes pCache i h time')
                | Hit i \<Rightarrow>
                   (let pNode = connHashList pCache ! h ! i;
                        pCache1 = rpcRemoveExpiredNodes pCache (Suc i) h time';
                        nodes = connHashList pCache1 ! h
                    in Inr (data pNode,
                            pCache1\<lparr>connHashList := (connHashList pCache1)[h := take i nodes @ drop (Suc i) nodes],
                                    connHashMemPool := taosMemPoolFree (connHashMemPool pCache1),
                                    totalConns := totalConns pCache1 - 1,
                                    count := (count pCache1)[h := count pCache1 ! h - 1]\<rparr>))))"

text \<open>
  The \<open>for\<close> loop of \<open>rpcCleanConnCache\<close>, from bucket \<open>hash\<close> on: each bucket is handed
  to \<open>rpcRemoveExpiredNodes\<close> with its head as \<open>pNode\<close>.
\<close>

function sweepBuckets :: "SConnCache \<Rightarrow> int \<Rightarrow> 64 word \<Rightarrow> SConnCache" where
  "sweepBuckets pCache hash time' =
     (if hash < maxSessions pCache
      then sweepBuckets (rpcRemoveExpiredNodes pCache 0 (nat hash) time') (hash + 1) time'
      else pCache)"
  by pat_completeness auto
termination
proof (relation "measure (\<lambda>(pCache, hash, time'). nat (maxSessions pCache - hash))")
  show "wf (measure (\<lambda>(pCache, hash, time'). nat (maxSessions pCache - hash)))"
    by simp
next
  fix pCache :: SConnCache and hash :: int and time' :: "64 word"
  assume less: "hash < maxSessions pCache"
  have loop: "maxSessions (removeNodes p ns h) = maxSessions p" for p ns h
    by (induction ns arbitrary: p) simp_all
  have "maxSessions (rpcRemoveExpiredNodes pCache 0 (nat hash) time') = maxSessions pCache"
    by (simp add: rpcRemoveExpiredNodes_def Let_def loop)
  with less
  show "((rpcRemoveExpiredNodes pCache 0 (nat hash) time', hash + 1, time'), (pCache, hash, time'))
          \<in> measure (\<lambda>(pCache, hash, time'). nat (maxSessions pCache - hash))"
    by simp
qed

declare sweepBuckets.simps [simp del]

text \<open>
  \<open>rpcCleanConnCache\<close>, the timer callback. \<open>tmrId\<close> is the handle of the timer that
  fired, and \<open>tmr\<close> the handle that \<open>taosTmrReset\<close> stores in \<open>pTimer\<close> at the end.
\<close>

definition rpcCleanConnCache :: "SConnCache \<Rightarrow> ptr \<Rightarrow> 64 word \<Rightarrow> ptr \<Rightarrow> SConnCache" where
  "rpcCleanConnCache pCache tmrId time' tmr =
     (if maxSessions pCache = 0 then pCache
      else if pTimer pCache \<noteq> tmrId then pCache
      else (sweepBuckets pCache 0 time')\<lparr>pTimer := tmr\<rparr>)"

text \<open>
  \<open>rpcCloseConnCache\<close>: the pool and the three arrays are released and the struct is
  zeroed before it is freed. There is no call of \<open>cleanFp\<close>.
\<close>

definition rpcCloseConnCache :: "SConnCache \<Rightarrow> SConnCache" where
  "rpcCloseConnCache pCache =
     (if maxSessions pCache = 0 then pCache
      else pCache\<lparr>connHashList := [],
                  connHashMemPool := \<lparr>numOfBlock = 0, numOfFree = 0\<rparr>,
                  maxSessions := 0,
                  totalConns := 0,
                  count := [],
                  keepTimer := 0,
                  pTimer := 0\<rparr>)"

subsection \<open>Sequences of calls\<close>

text \<open>
  A caller's history: calls of \<open>rpcAddConnIntoCache\<close> and \<open>rpcGetConnFromCache\<close> and runs
  of the timer callback, each with the clock value it reads. A history stops at the first
  call that does not return.
\<close>

datatype call =
    Put ptr "32 word" "16 word" "8 word" "64 word"
  | Get "32 word" "16 word" "8 word" "64 word"
  | Sweep ptr "64 word" ptr

fun clock :: "call \<Rightarrow> 64 word" where
  "clock (Put data' ip' port' connType' time') = time'"
| "clock (Get ip' port' connType' time') = time'"
| "clock (Sweep tmrId time' tmr) = time'"

fun step :: "SConnCache \<Rightarrow> call \<Rightarrow> error + SConnCache" where
  "step pCache (Put data' ip' port' connType' time') =
     rpcAddConnIntoCache pCache data' ip' port' connType' time'"
| "step pCache (Get ip' port' connType' time') =
     (case rpcGetConnFromCache pCache ip' port' connType' time' of
        Inl e \<Rightarrow> Inl e
      | Inr (pData, pCache') \<Rightarrow> Inr pCache')"
| "step pCache (Sweep tmrId time' tmr) = Inr (rpcCleanConnCache pCache tmrId time' tmr)"

fun run :: "SConnCache \<Rightarrow> call list \<Rightarrow> error + SConnCache" where
  "run pCache [] = Inr pCache"
| "run pCache (c # cs) =
     (case step pCache c of Inl e \<Rightarrow> Inl e | Inr pCache' \<Rightarrow> run pCache' cs)"

subsection \<open>Invariants of the arrays\<close>

text \<open>The three arrays have \<open>maxSessions\<close> elements, as \<open>rpcOpenConnCache\<close> allocates them.\<close>

definition arrays_ok :: "SConnCache \<Rightarrow> bool" where
  "arrays_ok pCache \<longleftrightarrow>
     length (connHashList pCache) = nat (maxSessions pCache) \<and>
     length (count pCache) = nat (maxSessions pCache)"

text \<open>Every counter of \<open>count\<close> is the length of the list of its bucket.\<close>

definition counted :: "SConnCache \<Rightarrow> bool" where
  "counted pCache \<longleftrightarrow> count pCache = map (\<lambda>nodes. int (length nodes)) (connHashList pCache)"

text \<open>
  The list of every bucket is ordered from the youngest entry at the head to the oldest at
  the tail, and no entry is younger than the clock value \<open>now\<close>.
\<close>

definition ordered_until :: "SConnCache \<Rightarrow> 64 word \<Rightarrow> bool" where
  "ordered_until pCache now \<longleftrightarrow>
     (\<forall>nodes \<in> set (connHashList pCache).
        sorted_wrt (\<lambda>a b. time b \<le> time a) nodes \<and> (\<forall>n \<in> set nodes. time n \<le> now))"

subsection \<open>Sample states\<close>

text \<open>
  States of a cache opened with 4 buckets, keep time 100 and timer handle 7, all of whose
  entries are in bucket 1 (port 0, kind 0, and an address that is 1 modulo 4): the list of
  bucket 1 and the calls of \<open>cleanFp\<close> so far.
\<close>

definition node :: "ptr \<Rightarrow> 32 word \<Rightarrow> 64 word \<Rightarrow> SConnHash" where
  "node d a t = \<lparr>ip = a, port = 0, connType = 0, data = d, time = t\<rparr>"

definition sample_cache :: "SConnHash list \<Rightarrow> ptr list \<Rightarrow> SConnCache" where
  "sample_cache nodes cl =
     \<lparr>connHashList = [[], nodes, [], []],
      connHashMemPool = \<lparr>numOfBlock = 4, numOfFree = 4 - length nodes\<rparr>,
      maxSessions = 4,
      totalConns = int (length nodes),
      count = [0, int (length nodes), 0, 0],
      keepTimer = 100,
      pTimer = 7,
      cleaned = cl\<rparr>"

section \<open>The vnode allocator of mgmtBalance.c\<close>

subsection \<open>Single-precision arithmetic\<close>

text \<open>
  \<open>balanceAllocVnodes\<close> computes \<open>(float)pDnode->openVnodes / pDnode->numOfTotalVnodes\<close>
  and compares the results as \<open>float\<close>. A \<open>float\<close> is IEEE 754 binary32, evaluated in
  single precision and rounded to nearest, ties to even. A finite \<open>float\<close> is the rational
  number it stands for.

  \<open>round_even\<close> is the integer nearest to a rational, the even one of the two at a tie.
\<close>

definition round_even :: "rat \<Rightarrow> int" where
  "round_even x =
     (let n = \<lfloor>x\<rfloor>; d = x - of_int n
      in if d < 1 / 2 then n else if 1 / 2 < d then n + 1 else if even n then n else n + 1)"

text \<open>The exponent of a positive rational \<open>x\<close>: the \<open>k\<close> with \<open>2 ^ k \<le> x < 2 ^ (k + 1)\<close>.\<close>

definition ilog2 :: "rat \<Rightarrow> int" where
  "ilog2 x = (if 1 \<le> x then bitlen \<lfloor>x\<rfloor> - 1 else - bitlen (\<lceil>1 / x\<rceil> - 1))"

text \<open>
  The rounding to 24 significant bits. The exponent is not bounded here: for
  \<open>2 ^ -126 \<le> \<bar>x\<bar>\<close> and \<open>\<bar>x\<bar>\<close> below \<open>2 ^ 128\<close> (no subnormal result, no overflow), and for
  0, this is the binary32 value that the conversion of an integer and the division return.
  The integers of up to 64 bits and the quotients of two of them are in this range.
\<close>

definition binary32 :: "rat \<Rightarrow> rat" where
  "binary32 x =
     (if x = 0 then 0
      else let e = ilog2 \<bar>x\<bar> - 23
           in of_int (round_even (x * 2 powi (- e))) * 2 powi e)"

subsection \<open>Data\<close>

text \<open>
  The fields of \<open>SDnodeObj\<close> that \<open>balanceAllocVnodes\<close> reads. The struct is declared in
  mnode.h, which is not among the sources: the two counts are taken as signed integers,
  with their values as unbounded integers, and the addresses as 32-bit words.
\<close>

record SDnodeObj =
  dnodeId :: int
  privateIp :: "32 word"
  publicIp :: "32 word"
  openVnodes :: int
  numOfTotalVnodes :: int

text \<open>
  One element of \<open>pVgroup->vnodeGid\<close>, with the three fields that are written. Its fields
  \<open>dnodeId\<close>, \<open>privateIp\<close> and \<open>publicIp\<close> have the prefix \<open>gid_\<close> here, to keep them
  apart from the fields of \<open>SDnodeObj\<close>.
\<close>

record SVnodeGid =
  gid_dnodeId :: int
  gid_privateIp :: "32 word"
  gid_publicIp :: "32 word"

text \<open>\<open>SVgObj\<close>: the array \<open>vnodeGid\<close>, by index.\<close>

record SVgObj =
  vnodeGid :: "nat \<Rightarrow> SVnodeGid"

text \<open>The two return codes.\<close>

datatype tsdb_code = TSDB_CODE_SUCCESS | TSDB_CODE_NO_ENOUGH_DNODES

subsection \<open>Operations\<close>

text \<open>
  \<open>float usage = (float)pDnode->openVnodes / pDnode->numOfTotalVnodes\<close>: the conversion of
  the first count, the conversion of the second count for the division, and the division.
\<close>

definition usageOf :: "SDnodeObj \<Rightarrow> rat" where
  "usageOf pDnode =
     binary32 (binary32 (of_int (openVnodes pDnode)) / binary32 (of_int (numOfTotalVnodes pDnode)))"

text \<open>
  The \<open>while (1)\<close> loop of \<open>balanceAllocVnodes\<close>. The list is the sequence of dnodes that
  \<open>clusterGetNextDnode\<close> hands out until it returns no dnode; \<open>clusterReleaseDnode\<close> only
  gives the reference back.
\<close>

fun scanDnodes :: "SDnodeObj list \<Rightarrow> SDnodeObj option \<Rightarrow> rat \<Rightarrow> SDnodeObj option" where
  "scanDnodes [] pSelDnode vnodeUsage = pSelDnode"
| "scanDnodes (pDnode # pNode) pSelDnode vnodeUsage =
     (if numOfTotalVnodes pDnode > 0 \<and> openVnodes pDnode < numOfTotalVnodes pDnode
      then let usage = usageOf pDnode
           in if usage \<le> vnodeUsage then scanDnodes pNode (Some pDnode) usage
              else scanDnodes pNode pSelDnode vnodeUsage
      else scanDnodes pNode pSelDnode vnodeUsage)"

text \<open>\<open>balanceAllocVnodes\<close>; \<open>vnodeUsage\<close> starts at \<open>1.0\<close>.\<close>

definition balanceAllocVnodes :: "SDnodeObj list \<Rightarrow> SVgObj \<Rightarrow> tsdb_code \<times> SVgObj" where
  "balanceAllocVnodes dnodes pVgroup =
     (case scanDnodes dnodes None 1 of
        None \<Rightarrow> (TSDB_CODE_NO_ENOUGH_DNODES, pVgroup)
      | Some pSelDnode \<Rightarrow>
          (TSDB_CODE_SUCCESS,
           pVgroup\<lparr>vnodeGid := (vnodeGid pVgroup)
              (0 := \<lparr>gid_dnodeId = dnodeId pSelDnode,
                     gid_privateIp = privateIp pSelDnode,
                     gid_publicIp = publicIp pSelDnode\<rparr>)\<rparr>))"

text \<open>The test of line 37: the dnode has vnodes and not all of them are open.\<close>

abbreviation has_room :: "SDnodeObj \<Rightarrow> bool" where
  "has_room pDnode \<equiv> numOfTotalVnodes pDnode > 0 \<and> openVnodes pDnode < numOfTotalVnodes pDnode"

text \<open>A dnode with an id and its two counts, and a vgroup whose slots are zero.\<close>

definition sample_dnode :: "int \<Rightarrow> int \<Rightarrow> int \<Rightarrow> SDnodeObj" where
  "sample_dnode i used cap =
     \<lparr>dnodeId = i, privateIp = 0, publicIp = 0, openVnodes = used, numOfTotalVnodes = cap\<rparr>"

definition sample_vgroup :: SVgObj where
  "sample_vgroup =
     \<lparr>vnodeGid = (\<lambda>i. \<lparr>gid_dnodeId = 0, gid_privateIp = 0, gid_publicIp = 0\<rparr>)\<rparr>"

section \<open>Properties\<close>

subsection \<open>The eviction loop\<close>

lemma list_update_twice_minus:
  "xs[h := xs[h := xs ! h - 1] ! h - int n] = xs[h := xs ! h - (1 + int n)]"
  for xs :: "int list"
proof (cases "h < length xs")
  case True
  then show ?thesis by (simp add: algebra_simps)
next
  case False
  then show ?thesis by (simp add: list_update_beyond)
qed

lemma removeNodes_eq:
  "removeNodes pCache ns h =
     pCache\<lparr>cleaned := cleaned pCache @ map data ns,
            totalConns := totalConns pCache - int (length ns),
            count := (count pCache)[h := count pCache ! h - int (length ns)],
            connHashMemPool := (connHashMemPool pCache)\<lparr>numOfFree := numOfFree (connHashMemPool pCache) + length ns\<rparr>\<rparr>"
proof (induction ns arbitrary: pCache)
  case Nil
  show ?case by simp
next
  case (Cons n ns)
  show ?case
    by (simp add: Cons.IH taosMemPoolFree_def list_update_twice_minus algebra_simps)
qed

lemma remove_expired_eq:
  "rpcRemoveExpiredNodes pCache i h t =
     (if i < length (connHashList pCache ! h) \<and> expired pCache (connHashList pCache ! h ! i) t
      then pCache\<lparr>cleaned := cleaned pCache @ map data (drop i (connHashList pCache ! h)),
            totalConns := totalConns pCache - int (length (connHashList pCache ! h) - i),
            count := (count pCache)[h := count pCache ! h - int (length (connHashList pCache ! h) - i)],
            connHashMemPool := (connHashMemPool pCache)\<lparr>numOfFree := numOfFree (connHashMemPool pCache) + (length (connHashList pCache ! h) - i)\<rparr>,
            connHashList := (connHashList pCache)[h := take i (connHashList pCache ! h)]\<rparr>
      else pCache)"
  by (simp add: rpcRemoveExpiredNodes_def Let_def removeNodes_eq)

lemma expired_nat:
  assumes "unat (time n) + unat (keepTimer pCache) < 2 ^ 64"
  shows "expired pCache n t \<longleftrightarrow> unat (time n) + unat (keepTimer pCache) \<le> unat t"
proof -
  from assms have "unat (keepTimer pCache) + unat (time n) < 2 ^ LENGTH(64)" by simp
  then have "unat (keepTimer pCache + time n) = unat (keepTimer pCache) + unat (time n)"
    by (simp only: unat_add_lem)
  then show ?thesis by (simp add: expired_def word_le_nat_alt add.commute)
qed

lemma remove_expired_fields [simp]:
  "maxSessions (rpcRemoveExpiredNodes pCache i h t) = maxSessions pCache"
  "keepTimer (rpcRemoveExpiredNodes pCache i h t) = keepTimer pCache"
  "pTimer (rpcRemoveExpiredNodes pCache i h t) = pTimer pCache"
  "length (connHashList (rpcRemoveExpiredNodes pCache i h t)) = length (connHashList pCache)"
  "length (count (rpcRemoveExpiredNodes pCache i h t)) = length (count pCache)"
  by (simp_all add: remove_expired_eq)

lemma remove_expired_arrays_ok [simp]:
  "arrays_ok (rpcRemoveExpiredNodes pCache i h t) = arrays_ok pCache"
  by (simp add: arrays_ok_def)

lemma remove_expired_counted:
  assumes "counted pCache" and "h < length (connHashList pCache)"
  shows "counted (rpcRemoveExpiredNodes pCache i h t)"
  using assms by (simp add: counted_def remove_expired_eq map_update)

lemma put_fields:
  fixes pCache :: SConnCache
  assumes ok: "arrays_ok pCache"
    and put: "rpcAddConnIntoCache pCache d ip' port' ct t = Inr pCache'"
    and hash: "rpcHashConn pCache ip' port' ct = Inr hash"
  defines "h \<equiv> nat hash"
  defines "nodes \<equiv> connHashList pCache ! h"
  defines "pNode \<equiv> \<lparr>ip = ip', port = port', connType = ct, data = d, time = t\<rparr>"
  shows "0 \<le> hash" and "hash < maxSessions pCache" and "d \<noteq> 0"
    and "h < length (connHashList pCache)"
    and "connHashList pCache' =
           (connHashList pCache)[h := pNode # (if nodes \<noteq> [] \<and> expired pCache (hd nodes) t then [] else nodes)]"
    and "cleaned pCache' =
           cleaned pCache @ (if nodes \<noteq> [] \<and> expired pCache (hd nodes) t then map data nodes else [])"
    and "count pCache' =
           (count pCache)[h := count pCache ! h + 1 -
              (if nodes \<noteq> [] \<and> expired pCache (hd nodes) t then int (length nodes) else 0)]"
    and "maxSessions pCache' = maxSessions pCache"
    and "keepTimer pCache' = keepTimer pCache"
    and "pTimer pCache' = pTimer pCache"
proof -
  from put hash show d: "d \<noteq> 0" and lo: "0 \<le> hash" and hi: "hash < maxSessions pCache"
    by (auto simp: rpcAddConnIntoCache_def split: if_splits option.splits)
  from ok lo hi show len: "h < length (connHashList pCache)"
    by (simp add: arrays_ok_def h_def)
  from ok lo hi have lenc: "h < length (count pCache)"
    by (simp add: arrays_ok_def h_def)
  obtain pool where pool: "taosMemPoolMalloc (connHashMemPool pCache) = Some pool"
    using put hash d by (auto simp: rpcAddConnIntoCache_def split: option.splits)
  define pCache1 where "pCache1 = pCache\<lparr>connHashMemPool := pool,
      connHashList := (connHashList pCache)[h := pNode # nodes],
      count := (count pCache)[h := count pCache ! h + 1]\<rparr>"
  have res: "pCache' = (rpcRemoveExpiredNodes pCache1 1 h t)
      \<lparr>totalConns := totalConns (rpcRemoveExpiredNodes pCache1 1 h t) + 1\<rparr>"
    using put hash d pool lo hi
    by (simp add: rpcAddConnIntoCache_def Let_def pCache1_def h_def nodes_def pNode_def)
  have b1: "connHashList pCache1 ! h = pNode # nodes"
    using len by (simp add: pCache1_def)
  have ex: "expired pCache1 n t = expired pCache n t" for n
    by (simp add: expired_def pCache1_def)
  have cond: "(1 < length (pNode # nodes) \<and> expired pCache1 ((pNode # nodes) ! 1) t)
              = (nodes \<noteq> [] \<and> expired pCache (hd nodes) t)"
    by (cases nodes) (simp_all add: ex)
  show "connHashList pCache' =
           (connHashList pCache)[h := pNode # (if nodes \<noteq> [] \<and> expired pCache (hd nodes) t then [] else nodes)]"
    unfolding res remove_expired_eq b1 cond by (simp add: pCache1_def)
  show "cleaned pCache' =
           cleaned pCache @ (if nodes \<noteq> [] \<and> expired pCache (hd nodes) t then map data nodes else [])"
    unfolding res remove_expired_eq b1 cond by (simp add: pCache1_def)
  show "count pCache' =
           (count pCache)[h := count pCache ! h + 1 -
              (if nodes \<noteq> [] \<and> expired pCache (hd nodes) t then int (length nodes) else 0)]"
    unfolding res remove_expired_eq b1 cond using lenc by (simp add: pCache1_def)
  show "maxSessions pCache' = maxSessions pCache" "keepTimer pCache' = keepTimer pCache"
    "pTimer pCache' = pTimer pCache"
    unfolding res by (simp_all add: pCache1_def)
qed

subsection \<open>The walk of the lookup\<close>

lemma findNode_AtEnd:
  "findNode pCache ns i ip' port' ct t = AtEnd \<longleftrightarrow>
     (\<forall>n \<in> set ns. \<not> expired pCache n t \<and> \<not> (ip n = ip' \<and> port n = port' \<and> connType n = ct))"
  by (induction ns arbitrary: i) auto

lemma findNode_Stale:
  "findNode pCache ns i ip' port' ct t = Stale j \<Longrightarrow>
     i \<le> j \<and> j - i < length ns \<and> expired pCache (ns ! (j - i)) t \<and>
     (\<forall>k < j - i. \<not> expired pCache (ns ! k) t \<and>
        \<not> (ip (ns ! k) = ip' \<and> port (ns ! k) = port' \<and> connType (ns ! k) = ct))"
proof (induction ns arbitrary: i)
  case Nil
  then show ?case by simp
next
  case (Cons n ns)
  show ?case
  proof (cases "expired pCache n t \<or> (ip n = ip' \<and> port n = port' \<and> connType n = ct)")
    case True
    with Cons.prems show ?thesis by (auto split: if_splits)
  next
    case False
    with Cons.prems have "findNode pCache ns (Suc i) ip' port' ct t = Stale j"
      by (auto split: if_splits)
    from Cons.IH [OF this] have ih: "Suc i \<le> j" "j - Suc i < length ns"
      "expired pCache (ns ! (j - Suc i)) t"
      "\<forall>k < j - Suc i. \<not> expired pCache (ns ! k) t \<and>
        \<not> (ip (ns ! k) = ip' \<and> port (ns ! k) = port' \<and> connType (ns ! k) = ct)"
      by simp_all
    from ih(1) have eq: "j - i = Suc (j - Suc i)" by simp
    show ?thesis unfolding eq using ih False
      by (auto simp: less_Suc_eq_0_disj)
  qed
qed

lemma findNode_Hit:
  "findNode pCache ns i ip' port' ct t = Hit j \<Longrightarrow>
     i \<le> j \<and> j - i < length ns \<and> \<not> expired pCache (ns ! (j - i)) t \<and>
     (ip (ns ! (j - i)) = ip' \<and> port (ns ! (j - i)) = port' \<and> connType (ns ! (j - i)) = ct) \<and>
     (\<forall>k < j - i. \<not> expired pCache (ns ! k) t \<and>
        \<not> (ip (ns ! k) = ip' \<and> port (ns ! k) = port' \<and> connType (ns ! k) = ct))"
proof (induction ns arbitrary: i)
  case Nil
  then show ?case by simp
next
  case (Cons n ns)
  show ?case
  proof (cases "expired pCache n t \<or> (ip n = ip' \<and> port n = port' \<and> connType n = ct)")
    case True
    with Cons.prems show ?thesis by (auto split: if_splits)
  next
    case False
    with Cons.prems have "findNode pCache ns (Suc i) ip' port' ct t = Hit j"
      by (auto split: if_splits)
    from Cons.IH [OF this] have ih: "Suc i \<le> j" "j - Suc i < length ns"
      "\<not> expired pCache (ns ! (j - Suc i)) t"
      "ip (ns ! (j - Suc i)) = ip' \<and> port (ns ! (j - Suc i)) = port' \<and> connType (ns ! (j - Suc i)) = ct"
      "\<forall>k < j - Suc i. \<not> expired pCache (ns ! k) t \<and>
        \<not> (ip (ns ! k) = ip' \<and> port (ns ! k) = port' \<and> connType (ns ! k) = ct)"
      by simp_all
    from ih(1) have eq: "j - i = Suc (j - Suc i)" by simp
    show ?thesis unfolding eq using ih False
      by (auto simp: less_Suc_eq_0_disj)
  qed
qed

lemma get_bounds:
  assumes "rpcGetConnFromCache pCache ip' port' ct t = Inr res"
    and "rpcHashConn pCache ip' port' ct = Inr hash"
  shows "0 \<le> hash" and "hash < maxSessions pCache"
  using assms by (auto simp: rpcGetConnFromCache_def split: if_splits)

lemma get_AtEnd:
  assumes "rpcHashConn pCache ip' port' ct = Inr hash" "0 \<le> hash" "hash < maxSessions pCache"
    and "findNode pCache (connHashList pCache ! nat hash) 0 ip' port' ct t = AtEnd"
  shows "rpcGetConnFromCache pCache ip' port' ct t = Inr (0, pCache)"
  using assms by (simp add: rpcGetConnFromCache_def)

lemma get_Stale:
  assumes "rpcHashConn pCache ip' port' ct = Inr hash" "0 \<le> hash" "hash < maxSessions pCache"
    and "findNode pCache (connHashList pCache ! nat hash) 0 ip' port' ct t = Stale j"
  shows "rpcGetConnFromCache pCache ip' port' ct t =
           Inr (0, rpcRemoveExpiredNodes pCache j (nat hash) t)"
  using assms by (simp add: rpcGetConnFromCache_def)

lemma get_Hit:
  fixes pCache :: SConnCache
  assumes ok: "arrays_ok pCache"
    and hash: "rpcHashConn pCache ip' port' ct = Inr hash" "0 \<le> hash" "hash < maxSessions pCache"
    and find: "findNode pCache (connHashList pCache ! nat hash) 0 ip' port' ct t = Hit j"
  defines "h \<equiv> nat hash"
  defines "nodes \<equiv> connHashList pCache ! h"
  defines "stale \<equiv> Suc j < length nodes \<and> expired pCache (nodes ! Suc j) t"
  shows "\<exists>pCache'. rpcGetConnFromCache pCache ip' port' ct t = Inr (data (nodes ! j), pCache') \<and>
      connHashList pCache' =
        (connHashList pCache)[h := take j nodes @ (if stale then [] else drop (Suc j) nodes)] \<and>
      cleaned pCache' = cleaned pCache @ (if stale then map data (drop (Suc j) nodes) else []) \<and>
      count pCache' = (count pCache)[h := count pCache ! h -
         (if stale then int (length nodes - Suc j) else 0) - 1] \<and>
      maxSessions pCache' = maxSessions pCache \<and> keepTimer pCache' = keepTimer pCache \<and>
      pTimer pCache' = pTimer pCache"
proof -
  from ok hash have len: "h < length (connHashList pCache)" and lenc: "h < length (count pCache)"
    by (simp_all add: arrays_ok_def h_def)
  from findNode_Hit [OF find] have j: "j < length nodes" by (simp add: nodes_def h_def)
  show ?thesis
    using hash find len lenc j
    by (simp add: rpcGetConnFromCache_def Let_def remove_expired_eq h_def [symmetric]
        nodes_def [symmetric] stale_def)
qed

subsection \<open>What every call preserves\<close>

lemma open_arrays_ok: "arrays_ok (rpcOpenConnCache n k tmr)"
  by (simp add: arrays_ok_def rpcOpenConnCache_def)

lemma open_counted: "counted (rpcOpenConnCache n k tmr)"
  by (simp add: counted_def rpcOpenConnCache_def)

lemma put_arrays_ok:
  assumes "arrays_ok pCache" and "rpcAddConnIntoCache pCache d ip' port' ct t = Inr pCache'"
  shows "arrays_ok pCache'"
proof -
  from assms(2) obtain hash where hash: "rpcHashConn pCache ip' port' ct = Inr hash"
    by (auto simp: rpcAddConnIntoCache_def split: if_splits sum.splits)
  from put_fields(5,7,8) [OF assms hash] assms(1) show ?thesis
    by (simp add: arrays_ok_def)
qed

lemma put_counted:
  assumes "arrays_ok pCache" and "counted pCache"
    and "rpcAddConnIntoCache pCache d ip' port' ct t = Inr pCache'"
  shows "counted pCache'"
proof -
  from assms(3) obtain hash where hash: "rpcHashConn pCache ip' port' ct = Inr hash"
    by (auto simp: rpcAddConnIntoCache_def split: if_splits sum.splits)
  note f = put_fields [OF assms(1,3) hash]
  from f(4) assms(2) have "count pCache ! nat hash = int (length (connHashList pCache ! nat hash))"
    by (simp add: counted_def)
  with f(5,7) assms(2) show ?thesis
    by (simp add: counted_def map_update add.commute)
qed

lemma get_arrays_ok:
  assumes ok: "arrays_ok pCache"
    and get: "rpcGetConnFromCache pCache ip' port' ct t = Inr (r, pCache')"
  shows "arrays_ok pCache'"
proof -
  from get obtain hash where hash: "rpcHashConn pCache ip' port' ct = Inr hash"
    by (auto simp: rpcGetConnFromCache_def split: sum.splits)
  note b = get_bounds [OF get hash]
  show ?thesis
  proof (cases "findNode pCache (connHashList pCache ! nat hash) 0 ip' port' ct t")
    case AtEnd
    from get_AtEnd [OF hash b AtEnd] get ok show ?thesis by simp
  next
    case (Stale j)
    from get_Stale [OF hash b Stale] get ok show ?thesis by auto
  next
    case (Hit j)
    from get_Hit [OF ok hash b Hit] get ok show ?thesis
      by (auto simp: arrays_ok_def)
  qed
qed

lemma get_counted:
  assumes ok: "arrays_ok pCache" and cnt: "counted pCache"
    and get: "rpcGetConnFromCache pCache ip' port' ct t = Inr (r, pCache')"
  shows "counted pCache'"
proof -
  from get obtain hash where hash: "rpcHashConn pCache ip' port' ct = Inr hash"
    by (auto simp: rpcGetConnFromCache_def split: sum.splits)
  note b = get_bounds [OF get hash]
  from ok b have len: "nat hash < length (connHashList pCache)"
    by (simp add: arrays_ok_def)
  show ?thesis
  proof (cases "findNode pCache (connHashList pCache ! nat hash) 0 ip' port' ct t")
    case AtEnd
    from get_AtEnd [OF hash b AtEnd] get cnt show ?thesis by simp
  next
    case (Stale j)
    from get_Stale [OF hash b Stale] get remove_expired_counted [OF cnt len]
    show ?thesis by auto
  next
    case (Hit j)
    from findNode_Hit [OF Hit] have j: "j < length (connHashList pCache ! nat hash)" by simp
    from len cnt have "count pCache ! nat hash = int (length (connHashList pCache ! nat hash))"
      by (simp add: counted_def)
    with get_Hit [OF ok hash b Hit] get cnt j show ?thesis
      by (auto simp: counted_def map_update)
  qed
qed

lemma sweepBuckets_invariants:
  "arrays_ok pCache \<Longrightarrow> counted pCache \<Longrightarrow> 0 \<le> hash \<Longrightarrow>
     arrays_ok (sweepBuckets pCache hash t) \<and> counted (sweepBuckets pCache hash t)"
proof (induction pCache hash t rule: sweepBuckets.induct)
  case (1 pCache hash t)
  show ?case
  proof (cases "hash < maxSessions pCache")
    case True
    with "1.prems" have len: "nat hash < length (connHashList pCache)"
      by (simp add: arrays_ok_def)
    have "arrays_ok (sweepBuckets (rpcRemoveExpiredNodes pCache 0 (nat hash) t) (hash + 1) t) \<and>
          counted (sweepBuckets (rpcRemoveExpiredNodes pCache 0 (nat hash) t) (hash + 1) t)"
      using "1.prems" True len by (intro "1.IH") (simp_all add: remove_expired_counted)
    with True show ?thesis by (subst (1 2) sweepBuckets.simps) simp
  next
    case False
    with "1.prems" show ?thesis by (subst (1 2) sweepBuckets.simps) simp
  qed
qed

lemma sweepBuckets_pTimer [simp]: "pTimer (sweepBuckets pCache hash t) = pTimer pCache"
  by (induction pCache hash t rule: sweepBuckets.induct)
     (subst sweepBuckets.simps, simp)

lemma clean_arrays_ok:
  "arrays_ok pCache \<Longrightarrow> counted pCache \<Longrightarrow> arrays_ok (rpcCleanConnCache pCache tmrId t tmr)"
  using sweepBuckets_invariants [of pCache 0 t]
  by (simp add: rpcCleanConnCache_def arrays_ok_def)

lemma clean_counted:
  "arrays_ok pCache \<Longrightarrow> counted pCache \<Longrightarrow> counted (rpcCleanConnCache pCache tmrId t tmr)"
  using sweepBuckets_invariants [of pCache 0 t]
  by (simp add: rpcCleanConnCache_def counted_def)

lemma step_invariants:
  assumes "arrays_ok pCache" and "counted pCache" and "step pCache c = Inr pCache'"
  shows "arrays_ok pCache' \<and> counted pCache'"
proof (cases c)
  case (Put d ip' port' ct t)
  with assms show ?thesis by (auto intro: put_arrays_ok put_counted)
next
  case (Get ip' port' ct t)
  with assms show ?thesis
    by (auto split: sum.splits intro: get_arrays_ok get_counted)
next
  case (Sweep tmrId t tmr)
  with assms show ?thesis by (auto intro: clean_arrays_ok clean_counted)
qed

lemma run_invariants:
  "arrays_ok pCache \<Longrightarrow> counted pCache \<Longrightarrow> run pCache cs = Inr pCache' \<Longrightarrow>
     arrays_ok pCache' \<and> counted pCache'"
proof (induction cs arbitrary: pCache)
  case Nil
  then show ?case by simp
next
  case (Cons c cs)
  from Cons.prems(3) obtain pCache1 where s: "step pCache c = Inr pCache1"
    and r: "run pCache1 cs = Inr pCache'"
    by (auto split: sum.splits)
  from step_invariants [OF Cons.prems(1,2) s] Cons.IH [OF _ _ r] show ?case by simp
qed

subsection \<open>A lookup after an insertion\<close>

lemma put_hash:
  assumes "rpcAddConnIntoCache pCache d ip' port' ct t = Inr pCache'"
  obtains hash where "rpcHashConn pCache ip' port' ct = Inr hash"
  using assms by (auto simp: rpcAddConnIntoCache_def split: if_splits sum.splits)

lemma hash_maxSessions:
  "maxSessions pCache' = maxSessions pCache \<Longrightarrow>
     rpcHashConn pCache' ip' port' ct = rpcHashConn pCache ip' port' ct"
  by (simp add: rpcHashConn_def)

lemma expired_keepTimer:
  "keepTimer pCache' = keepTimer pCache \<Longrightarrow> expired pCache' n t = expired pCache n t"
  by (simp add: expired_def)

lemma get_after_put:
  fixes pCache :: SConnCache
  assumes ok: "arrays_ok pCache"
    and put: "rpcAddConnIntoCache pCache d ip' port' ct t = Inr pCache1"
    and hash: "rpcHashConn pCache ip' port' ct = Inr hash"
    and fresh: "\<not> expired pCache \<lparr>ip = ip', port = port', connType = ct, data = d, time = t\<rparr> t'"
  defines "h \<equiv> nat hash"
  defines "rest \<equiv> tl (connHashList pCache1 ! h)"
  shows "\<exists>pCache2. rpcGetConnFromCache pCache1 ip' port' ct t' = Inr (d, pCache2) \<and>
      connHashList pCache2 =
        (connHashList pCache1)[h := if rest \<noteq> [] \<and> expired pCache (hd rest) t' then [] else rest] \<and>
      cleaned pCache2 = cleaned pCache1 @
        (if rest \<noteq> [] \<and> expired pCache (hd rest) t' then map data rest else []) \<and>
      count pCache2 = (count pCache1)[h := count pCache1 ! h -
        (if rest \<noteq> [] \<and> expired pCache (hd rest) t' then int (length rest) else 0) - 1]"
proof -
  note f = put_fields [OF ok put hash]
  from put_arrays_ok [OF ok put] have ok1: "arrays_ok pCache1" .
  from hash_maxSessions [OF f(8)] hash have hash1: "rpcHashConn pCache1 ip' port' ct = Inr hash"
    by simp
  from f(2,8) have hi1: "hash < maxSessions pCache1" by simp
  define pNode where "pNode = \<lparr>ip = ip', port = port', connType = ct, data = d, time = t\<rparr>"
  from f(4,5) have b1: "connHashList pCache1 ! h = pNode # rest"
    by (simp add: h_def rest_def pNode_def)
  from fresh expired_keepTimer [OF f(9)] have fresh1: "\<not> expired pCache1 pNode t'"
    by (simp add: pNode_def)
  have find: "findNode pCache1 (connHashList pCache1 ! nat hash) 0 ip' port' ct t' = Hit 0"
    using b1 fresh1 by (simp add: h_def pNode_def)
  have ex: "expired pCache1 n t' = expired pCache n t'" for n
    using f(9) by (rule expired_keepTimer)
  have cond: "(Suc 0 < length (pNode # rest) \<and> expired pCache1 ((pNode # rest) ! Suc 0) t')
              = (rest \<noteq> [] \<and> expired pCache (hd rest) t')"
    by (cases rest) (simp_all add: ex)
  from get_Hit [OF ok1 hash1 f(1) hi1 find]
  show ?thesis
    unfolding h_def [symmetric] b1 cond by (clarsimp simp: pNode_def)
qed

subsection \<open>The sample states are reached\<close>

lemma sample_runs:
  "run (rpcOpenConnCache 4 100 7) [Put 11 1 0 0 0] = Inr (sample_cache [node 11 1 0] [])"
  "run (rpcOpenConnCache 4 100 7) [Put 11 1 0 0 0, Put 12 1 0 0 50]
     = Inr (sample_cache [node 12 1 50, node 11 1 0] [])"
  "run (rpcOpenConnCache 4 100 7) [Put 11 1 0 0 0, Put 12 5 0 0 50, Put 13 1 0 0 60]
     = Inr (sample_cache [node 13 1 60, node 12 5 50, node 11 1 0] [])"
  by code_simp+

subsection \<open>The sweep\<close>

lemma remove_head_eq:
  "rpcRemoveExpiredNodes pCache 0 h t =
     (if connHashList pCache ! h \<noteq> [] \<and> expired pCache (hd (connHashList pCache ! h)) t
      then pCache\<lparr>cleaned := cleaned pCache @ map data (connHashList pCache ! h),
            totalConns := totalConns pCache - int (length (connHashList pCache ! h)),
            count := (count pCache)[h := count pCache ! h - int (length (connHashList pCache ! h))],
            connHashMemPool := (connHashMemPool pCache)\<lparr>numOfFree := numOfFree (connHashMemPool pCache) + length (connHashList pCache ! h)\<rparr>,
            connHashList := (connHashList pCache)[h := []]\<rparr>
      else pCache)"
  by (cases "connHashList pCache ! h") (simp_all add: remove_expired_eq)

lemma sweepBuckets_effect:
  "arrays_ok pCache \<Longrightarrow> 0 \<le> hash \<Longrightarrow>
     length (connHashList (sweepBuckets pCache hash t)) = length (connHashList pCache) \<and>
     keepTimer (sweepBuckets pCache hash t) = keepTimer pCache \<and>
     maxSessions (sweepBuckets pCache hash t) = maxSessions pCache \<and>
     (\<forall>h < length (connHashList pCache).
        connHashList (sweepBuckets pCache hash t) ! h =
          (if nat hash \<le> h \<and> connHashList pCache ! h \<noteq> [] \<and>
              expired pCache (hd (connHashList pCache ! h)) t
           then [] else connHashList pCache ! h) \<and>
        count (sweepBuckets pCache hash t) ! h =
          (if nat hash \<le> h \<and> connHashList pCache ! h \<noteq> [] \<and>
              expired pCache (hd (connHashList pCache ! h)) t
           then count pCache ! h - int (length (connHashList pCache ! h)) else count pCache ! h)) \<and>
     cleaned (sweepBuckets pCache hash t) =
       cleaned pCache @
       concat (map (\<lambda>nodes. if nodes \<noteq> [] \<and> expired pCache (hd nodes) t then map data nodes else [])
                (drop (nat hash) (connHashList pCache)))"
proof (induction pCache hash t rule: sweepBuckets.induct)
  case (1 pCache hash t)
  show ?case
  proof (cases "hash < maxSessions pCache")
    case False
    then have "sweepBuckets pCache hash t = pCache"
      by (subst sweepBuckets.simps) simp
    moreover from False "1.prems" have "length (connHashList pCache) \<le> nat hash"
      by (simp add: arrays_ok_def)
    ultimately show ?thesis by simp
  next
    case True
    define h0 where "h0 = nat hash"
    define pCache1 where "pCache1 = rpcRemoveExpiredNodes pCache 0 h0 t"
    from True "1.prems" have len: "h0 < length (connHashList pCache)"
      and lenc: "h0 < length (count pCache)"
      by (simp_all add: arrays_ok_def h0_def)
    from "1.prems" have suc: "nat (hash + 1) = Suc h0" by (simp add: h0_def)
    have sw: "sweepBuckets pCache hash t = sweepBuckets pCache1 (hash + 1) t"
      using True by (subst sweepBuckets.simps) (simp add: pCache1_def h0_def)
    have ok1: "arrays_ok pCache1" using "1.prems" by (simp add: pCache1_def)
    have ex: "expired pCache1 n t = expired pCache n t" for n
      by (simp add: expired_def pCache1_def)
    note ih = "1.IH" [OF True, folded h0_def, folded pCache1_def, OF ok1, unfolded suc ex]
    have ih': "length (connHashList (sweepBuckets pCache1 (hash + 1) t)) = length (connHashList pCache1)"
      "keepTimer (sweepBuckets pCache1 (hash + 1) t) = keepTimer pCache1"
      "maxSessions (sweepBuckets pCache1 (hash + 1) t) = maxSessions pCache1"
      "\<And>h. h < length (connHashList pCache1) \<Longrightarrow>
         connHashList (sweepBuckets pCache1 (hash + 1) t) ! h =
          (if Suc h0 \<le> h \<and> connHashList pCache1 ! h \<noteq> [] \<and>
              expired pCache (hd (connHashList pCache1 ! h)) t
           then [] else connHashList pCache1 ! h)"
      "\<And>h. h < length (connHashList pCache1) \<Longrightarrow>
        count (sweepBuckets pCache1 (hash + 1) t) ! h =
          (if Suc h0 \<le> h \<and> connHashList pCache1 ! h \<noteq> [] \<and>
              expired pCache (hd (connHashList pCache1 ! h)) t
           then count pCache1 ! h - int (length (connHashList pCache1 ! h)) else count pCache1 ! h)"
      "cleaned (sweepBuckets pCache1 (hash + 1) t) =
       cleaned pCache1 @
       concat (map (\<lambda>nodes. if nodes \<noteq> [] \<and> expired pCache (hd nodes) t then map data nodes else [])
                (drop (Suc h0) (connHashList pCache1)))"
      using ih "1.prems" by simp_all
    have l1: "length (connHashList pCache1) = length (connHashList pCache)"
      by (simp add: pCache1_def)
    have b1: "connHashList pCache1 ! h =
        (if h = h0 \<and> connHashList pCache ! h0 \<noteq> [] \<and> expired pCache (hd (connHashList pCache ! h0)) t
         then [] else connHashList pCache ! h)" if "h < length (connHashList pCache)" for h
      using that by (simp add: pCache1_def remove_head_eq nth_list_update)
    have c1: "count pCache1 ! h =
        (if h = h0 \<and> connHashList pCache ! h0 \<noteq> [] \<and> expired pCache (hd (connHashList pCache ! h0)) t
         then count pCache ! h0 - int (length (connHashList pCache ! h0)) else count pCache ! h)"
      for h
      using lenc by (simp add: pCache1_def remove_head_eq nth_list_update)
    have d1: "drop (Suc h0) (connHashList pCache1) = drop (Suc h0) (connHashList pCache)"
      by (simp add: pCache1_def remove_head_eq)
    have cl1: "cleaned pCache1 = cleaned pCache @
        (if connHashList pCache ! h0 \<noteq> [] \<and> expired pCache (hd (connHashList pCache ! h0)) t
         then map data (connHashList pCache ! h0) else [])"
      by (simp add: pCache1_def remove_head_eq)
    have dr: "drop h0 (connHashList pCache) = connHashList pCache ! h0 # drop (Suc h0) (connHashList pCache)"
      using len by (simp add: Cons_nth_drop_Suc)
    have e: "Suc h0 \<le> h \<longleftrightarrow> h0 \<le> h \<and> h \<noteq> h0" for h
      by auto
    have A: "length (connHashList (sweepBuckets pCache hash t)) = length (connHashList pCache)"
      unfolding sw ih'(1) by (rule l1)
    have K: "keepTimer (sweepBuckets pCache hash t) = keepTimer pCache"
      "maxSessions (sweepBuckets pCache hash t) = maxSessions pCache"
      unfolding sw ih'(2,3) by (simp_all add: pCache1_def)
    have B: "connHashList (sweepBuckets pCache hash t) ! h =
          (if h0 \<le> h \<and> connHashList pCache ! h \<noteq> [] \<and>
              expired pCache (hd (connHashList pCache ! h)) t
           then [] else connHashList pCache ! h)" if "h < length (connHashList pCache)" for h
    proof (cases "h = h0")
      case True
      with that ih'(4) [of h] b1 [of h] l1 show ?thesis unfolding sw by simp
    next
      case False
      with that ih'(4) [of h] b1 [of h] l1 show ?thesis unfolding sw by (simp add: e)
    qed
    have C: "count (sweepBuckets pCache hash t) ! h =
          (if h0 \<le> h \<and> connHashList pCache ! h \<noteq> [] \<and>
              expired pCache (hd (connHashList pCache ! h)) t
           then count pCache ! h - int (length (connHashList pCache ! h)) else count pCache ! h)"
      if "h < length (connHashList pCache)" for h
    proof (cases "h = h0")
      case True
      with that ih'(5) [of h] b1 [of h] c1 [of h] l1 show ?thesis unfolding sw by simp
    next
      case False
      with that ih'(5) [of h] b1 [of h] c1 [of h] l1 show ?thesis unfolding sw by (simp add: e)
    qed
    have D: "cleaned (sweepBuckets pCache hash t) =
       cleaned pCache @
       concat (map (\<lambda>nodes. if nodes \<noteq> [] \<and> expired pCache (hd nodes) t then map data nodes else [])
                (drop h0 (connHashList pCache)))"
      unfolding sw ih'(6) d1 cl1 dr by simp
    from A K B C D show ?thesis unfolding h0_def by blast
  qed
qed

lemma clean_eq:
  "maxSessions pCache \<noteq> 0 \<Longrightarrow> pTimer pCache = tmrId \<Longrightarrow>
     rpcCleanConnCache pCache tmrId t tmr = (sweepBuckets pCache 0 t)\<lparr>pTimer := tmr\<rparr>"
  by (simp add: rpcCleanConnCache_def)

subsection \<open>What leaves a bucket\<close>

lemma put_evicts:
  assumes ok: "arrays_ok pCache"
    and put: "rpcAddConnIntoCache pCache d ip' port' ct t = Inr pCache1"
  shows "\<exists>h kept gone. h < length (connHashList pCache) \<and>
      connHashList pCache ! h = kept @ gone \<and>
      connHashList pCache1 =
        (connHashList pCache)[h := \<lparr>ip = ip', port = port', connType = ct, data = d, time = t\<rparr> # kept] \<and>
      cleaned pCache1 = cleaned pCache @ map data gone \<and>
      (gone = [] \<or> expired pCache (hd gone) t)"
proof -
  from put obtain hash where hash: "rpcHashConn pCache ip' port' ct = Inr hash"
    by (rule put_hash)
  note f = put_fields [OF ok put hash]
  define nodes where "nodes = connHashList pCache ! nat hash"
  show ?thesis
  proof (cases "nodes \<noteq> [] \<and> expired pCache (hd nodes) t")
    case True
    with f(4,5,6) show ?thesis
      apply -
      apply (rule exI [of _ "nat hash"], rule exI [of _ "[]"], rule exI [of _ nodes])
      by (simp add: nodes_def)
  next
    case False
    with f(4,5,6) show ?thesis
      apply -
      apply (rule exI [of _ "nat hash"], rule exI [of _ nodes], rule exI [of _ "[]"])
      by (auto simp: nodes_def)
  qed
qed

lemma get_evicts:
  assumes ok: "arrays_ok pCache"
    and get: "rpcGetConnFromCache pCache ip' port' ct t = Inr (pData, pCache2)"
  shows "\<exists>h before after gone. h < length (connHashList pCache) \<and>
      connHashList pCache2 = (connHashList pCache)[h := before @ after] \<and>
      cleaned pCache2 = cleaned pCache @ map data gone \<and>
      (gone = [] \<or> expired pCache (hd gone) t) \<and>
      (pData = 0 \<and> after = [] \<and> connHashList pCache ! h = before @ gone \<or>
       (\<exists>pNode. pData = data pNode \<and> connHashList pCache ! h = before @ pNode # after @ gone))"
proof -
  from get obtain hash where hash: "rpcHashConn pCache ip' port' ct = Inr hash"
    by (auto simp: rpcGetConnFromCache_def split: sum.splits)
  note b = get_bounds [OF get hash]
  define h where "h = nat hash"
  define nodes where "nodes = connHashList pCache ! h"
  from ok b have len: "h < length (connHashList pCache)"
    by (simp add: arrays_ok_def h_def)
  show ?thesis
  proof (cases "findNode pCache nodes 0 ip' port' ct t")
    case AtEnd
    with get_AtEnd [OF hash b] get have "pData = 0" "pCache2 = pCache"
      by (simp_all add: nodes_def h_def)
    with len show ?thesis
      apply -
      apply (rule exI [of _ h], rule exI [of _ nodes], rule exI [of _ "[]"])
      by (simp add: nodes_def)
  next
    case (Stale j)
    with get_Stale [OF hash b] get
    have r: "pData = 0" "pCache2 = rpcRemoveExpiredNodes pCache j h t"
      by (simp_all add: nodes_def h_def)
    from findNode_Stale [OF Stale] have j: "j < length nodes" "expired pCache (nodes ! j) t"
      by simp_all
    from j(1) have hd: "hd (drop j nodes) = nodes ! j" by (simp add: hd_drop_conv_nth)
    from len j r show ?thesis
      apply -
      apply (rule exI [of _ h], rule exI [of _ "take j nodes"], rule exI [of _ "[]"], rule exI [of _ "drop j nodes"])
      by (simp add: remove_expired_eq nodes_def [symmetric] hd)
  next
    case (Hit j)
    from findNode_Hit [OF Hit] have j: "j < length nodes" by simp
    define stale where "stale \<longleftrightarrow> Suc j < length nodes \<and> expired pCache (nodes ! Suc j) t"
    from get_Hit [OF ok hash b Hit [unfolded nodes_def h_def]] get
    have r: "pData = data (nodes ! j)"
      "connHashList pCache2 =
        (connHashList pCache)[h := take j nodes @ (if stale then [] else drop (Suc j) nodes)]"
      "cleaned pCache2 = cleaned pCache @ (if stale then map data (drop (Suc j) nodes) else [])"
      by (auto simp: nodes_def h_def stale_def)
    have split: "nodes = take j nodes @ nodes ! j # drop (Suc j) nodes"
      using j by (simp add: id_take_nth_drop [symmetric])
    show ?thesis
    proof (cases stale)
      case True
      then have hd: "hd (drop (Suc j) nodes) = nodes ! Suc j"
        by (simp add: stale_def hd_drop_conv_nth)
      from True have ex: "expired pCache (nodes ! Suc j) t" by (simp add: stale_def)
      have "pData = data (nodes ! j) \<and>
            connHashList pCache ! h = take j nodes @ nodes ! j # [] @ drop (Suc j) nodes"
        using r(1) split by (simp add: nodes_def [symmetric])
      with len r True hd ex show ?thesis
        apply -
      apply (rule exI [of _ h], rule exI [of _ "take j nodes"], rule exI [of _ "[]"], rule exI [of _ "drop (Suc j) nodes"])
      by auto
    next
      case False
      have "pData = data (nodes ! j) \<and>
            connHashList pCache ! h = take j nodes @ nodes ! j # drop (Suc j) nodes @ []"
        using r(1) split by (simp add: nodes_def [symmetric])
      with len r False show ?thesis
        apply -
      apply (rule exI [of _ h], rule exI [of _ "take j nodes"], rule exI [of _ "drop (Suc j) nodes"], rule exI [of _ "[]"])
      by auto
    qed
  qed
qed

lemma clean_evicts:
  assumes ok: "arrays_ok pCache"
  shows "\<exists>gone. length gone = length (connHashList pCache) \<and>
      (\<forall>h < length (connHashList pCache).
         connHashList pCache ! h = connHashList (rpcCleanConnCache pCache tmrId t tmr) ! h @ gone ! h \<and>
         (gone ! h = [] \<or> expired pCache (hd (gone ! h)) t)) \<and>
      cleaned (rpcCleanConnCache pCache tmrId t tmr) =
        cleaned pCache @ concat (map (map data) gone)"
proof (cases "maxSessions pCache \<noteq> 0 \<and> pTimer pCache = tmrId")
  case False
  then have "rpcCleanConnCache pCache tmrId t tmr = pCache"
    by (auto simp: rpcCleanConnCache_def)
  then show ?thesis
    apply -
      apply (rule exI [of _ "replicate (length (connHashList pCache)) []"])
      by simp
next
  case True
  define gone where "gone = map (\<lambda>nodes. if nodes \<noteq> [] \<and> expired pCache (hd nodes) t
                                 then nodes else []) (connHashList pCache)"
  from True have eq: "rpcCleanConnCache pCache tmrId t tmr = (sweepBuckets pCache 0 t)\<lparr>pTimer := tmr\<rparr>"
    by (simp add: clean_eq)
  note s = sweepBuckets_effect [OF ok, of 0 t]
  have "concat (map (map data) gone) =
      concat (map (\<lambda>nodes. if nodes \<noteq> [] \<and> expired pCache (hd nodes) t then map data nodes else [])
                (connHashList pCache))"
    unfolding gone_def map_map by (rule arg_cong [of _ _ concat], rule map_cong) auto
  with s show ?thesis
    unfolding eq apply -
      apply (rule exI [of _ gone])
      by (simp add: gone_def)
qed

subsection \<open>The order of a bucket\<close>

lemma ordered_bucket:
  assumes "ordered_until pCache now" and "h < length (connHashList pCache)"
  shows "sorted_wrt (\<lambda>a b. time b \<le> time a) (connHashList pCache ! h)"
    and "\<forall>n \<in> set (connHashList pCache ! h). time n \<le> now"
  using assms(1) nth_mem [OF assms(2)] unfolding ordered_until_def by blast+

lemma ordered_update:
  assumes "ordered_until pCache now"
    and "connHashList pCache' = (connHashList pCache)[h := nodes]"
    and "sorted_wrt (\<lambda>a b. time b \<le> time a) nodes"
    and "\<forall>n \<in> set nodes. time n \<le> now'"
    and "now \<le> now'"
  shows "ordered_until pCache' now'"
  unfolding ordered_until_def
proof (intro ballI)
  fix ns assume "ns \<in> set (connHashList pCache')"
  with assms(2) have "ns = nodes \<or> ns \<in> set (connHashList pCache)"
    using set_update_subset_insert [of "connHashList pCache" h nodes] by auto
  then show "sorted_wrt (\<lambda>a b. time b \<le> time a) ns \<and> (\<forall>n \<in> set ns. time n \<le> now')"
  proof
    assume "ns = nodes"
    with assms(3,4) show ?thesis by simp
  next
    assume "ns \<in> set (connHashList pCache)"
    with assms(1,5) show ?thesis
      by (auto simp: ordered_until_def intro: order_trans)
  qed
qed

lemma ordered_mono:
  "ordered_until pCache now \<Longrightarrow> now \<le> now' \<Longrightarrow> ordered_until pCache now'"
  by (auto simp: ordered_until_def intro: order_trans)

lemma sorted_wrt_without:
  "sorted_wrt P (xs @ y # ys) \<Longrightarrow> sorted_wrt P (xs @ ys)"
  by (simp add: sorted_wrt_append)

lemma sorted_wrt_take_drop:
  assumes "sorted_wrt P xs"
  shows "\<forall>y \<in> set (drop j xs). \<forall>x \<in> set (take j xs). P x y"
proof -
  from assms have "sorted_wrt P (take j xs @ drop j xs)" by simp
  then show ?thesis unfolding sorted_wrt_append by blast
qed

lemma remove_expired_ordered:
  assumes "ordered_until pCache now" and "h < length (connHashList pCache)"
  shows "ordered_until (rpcRemoveExpiredNodes pCache i h t) now"
proof (cases "i < length (connHashList pCache ! h) \<and> expired pCache (connHashList pCache ! h ! i) t")
  case False
  then have "rpcRemoveExpiredNodes pCache i h t = pCache"
    by (auto simp: remove_expired_eq)
  with assms(1) show ?thesis by simp
next
  case True
  note b = ordered_bucket [OF assms]
  show ?thesis
  proof (rule ordered_update [OF assms(1)])
    show "connHashList (rpcRemoveExpiredNodes pCache i h t) =
            (connHashList pCache)[h := take i (connHashList pCache ! h)]"
      using True by (simp add: remove_expired_eq)
    show "sorted_wrt (\<lambda>a b. time b \<le> time a) (take i (connHashList pCache ! h))"
      using b(1) by (rule sorted_wrt_take)
    show "\<forall>n \<in> set (take i (connHashList pCache ! h)). time n \<le> now"
      using b(2) by (auto dest: in_set_takeD)
  qed simp
qed

lemma put_ordered:
  assumes ok: "arrays_ok pCache" and ord: "ordered_until pCache now" and le: "now \<le> t"
    and put: "rpcAddConnIntoCache pCache d ip' port' ct t = Inr pCache'"
  shows "ordered_until pCache' t"
proof -
  from put obtain hash where hash: "rpcHashConn pCache ip' port' ct = Inr hash"
    by (rule put_hash)
  note f = put_fields [OF ok put hash]
  note b = ordered_bucket [OF ord f(4)]
  from b(2) le have below: "\<forall>n \<in> set (connHashList pCache ! nat hash). time n \<le> t"
    by (auto intro: order_trans)
  show ?thesis
  proof (rule ordered_update [OF ord f(5) _ _ le])
    show "sorted_wrt (\<lambda>a b. time b \<le> time a)
            (\<lparr>ip = ip', port = port', connType = ct, data = d, time = t\<rparr> #
             (if connHashList pCache ! nat hash \<noteq> [] \<and>
                 expired pCache (hd (connHashList pCache ! nat hash)) t
              then [] else connHashList pCache ! nat hash))"
      using b(1) below by simp
    show "\<forall>n \<in> set (\<lparr>ip = ip', port = port', connType = ct, data = d, time = t\<rparr> #
             (if connHashList pCache ! nat hash \<noteq> [] \<and>
                 expired pCache (hd (connHashList pCache ! nat hash)) t
              then [] else connHashList pCache ! nat hash)). time n \<le> t"
      using below by simp
  qed
qed

lemma get_ordered:
  assumes ok: "arrays_ok pCache" and ord: "ordered_until pCache now"
    and get: "rpcGetConnFromCache pCache ip' port' ct t = Inr (r, pCache')"
  shows "ordered_until pCache' now"
proof -
  from get_evicts [OF ok get] obtain h before after gone pNode
    where h: "h < length (connHashList pCache)"
      and l: "connHashList pCache' = (connHashList pCache)[h := before @ after]"
      and s: "after = [] \<and> connHashList pCache ! h = before @ gone \<or>
              connHashList pCache ! h = before @ pNode # after @ gone"
    by blast
  note b = ordered_bucket [OF ord h]
  from s have "sorted_wrt (\<lambda>a b. time b \<le> time a) (before @ after) \<and>
               set (before @ after) \<subseteq> set (connHashList pCache ! h)"
  proof
    assume a: "after = [] \<and> connHashList pCache ! h = before @ gone"
    with b(1) show ?thesis by (simp add: sorted_wrt_append)
  next
    assume a: "connHashList pCache ! h = before @ pNode # after @ gone"
    with b(1) have "sorted_wrt (\<lambda>a b. time b \<le> time a) (before @ after @ gone)"
      by (simp add: sorted_wrt_without)
    then have "sorted_wrt (\<lambda>a b. time b \<le> time a) (before @ after)"
      by (simp add: sorted_wrt_append)
    with a show ?thesis by auto
  qed
  with b(2) show ?thesis
    by (intro ordered_update [OF ord l]) auto
qed

lemma clean_ordered:
  assumes ok: "arrays_ok pCache" and ord: "ordered_until pCache now"
  shows "ordered_until (rpcCleanConnCache pCache tmrId t tmr) now"
proof -
  from clean_evicts [OF ok, of tmrId t tmr] obtain gone
    where g: "\<forall>h < length (connHashList pCache).
         connHashList pCache ! h = connHashList (rpcCleanConnCache pCache tmrId t tmr) ! h @ gone ! h"
    by blast
  have len: "length (connHashList (rpcCleanConnCache pCache tmrId t tmr)) = length (connHashList pCache)"
    using sweepBuckets_effect [OF ok, of 0 t] by (simp add: rpcCleanConnCache_def)
  show ?thesis
    unfolding ordered_until_def
  proof (intro ballI)
    fix ns assume "ns \<in> set (connHashList (rpcCleanConnCache pCache tmrId t tmr))"
    then obtain h where h: "h < length (connHashList pCache)"
      and ns: "ns = connHashList (rpcCleanConnCache pCache tmrId t tmr) ! h"
      using len by (auto simp: in_set_conv_nth)
    from g h ns have split: "connHashList pCache ! h = ns @ gone ! h" by simp
    note b = ordered_bucket [OF ord h]
    from b split show "sorted_wrt (\<lambda>a b. time b \<le> time a) ns \<and> (\<forall>n \<in> set ns. time n \<le> now)"
      by (simp add: sorted_wrt_append)
  qed
qed

lemma step_ordered:
  assumes "arrays_ok pCache" and "ordered_until pCache now" and "now \<le> clock c"
    and "step pCache c = Inr pCache'"
  shows "ordered_until pCache' (clock c)"
proof (cases c)
  case (Put d ip' port' ct t)
  with assms show ?thesis by (auto intro: put_ordered)
next
  case (Get ip' port' ct t)
  with assms show ?thesis
    by (auto split: sum.splits intro: ordered_mono get_ordered)
next
  case (Sweep tmrId t tmr)
  with assms show ?thesis by (auto intro: ordered_mono clean_ordered)
qed

lemma run_ordered:
  "arrays_ok pCache \<Longrightarrow> counted pCache \<Longrightarrow> ordered_until pCache now \<Longrightarrow>
   sorted (now # map clock cs) \<Longrightarrow> run pCache cs = Inr pCache' \<Longrightarrow>
     \<exists>now'. ordered_until pCache' now'"
proof (induction cs arbitrary: pCache now)
  case Nil
  then show ?case by auto
next
  case (Cons c cs)
  from Cons.prems(5) obtain pCache1 where s: "step pCache c = Inr pCache1"
    and r: "run pCache1 cs = Inr pCache'"
    by (auto split: sum.splits)
  from Cons.prems(4) have le: "now \<le> clock c" and rest: "sorted (clock c # map clock cs)"
    by simp_all
  from step_invariants [OF Cons.prems(1,2) s]
  have inv: "arrays_ok pCache1" "counted pCache1" by simp_all
  from step_ordered [OF Cons.prems(1,3) le s] have "ordered_until pCache1 (clock c)" .
  from Cons.IH [OF inv this rest r] show ?case .
qed

lemma open_ordered: "ordered_until (rpcOpenConnCache n k tmr) 0"
  by (simp add: ordered_until_def rpcOpenConnCache_def)

subsection \<open>Single-precision rounding\<close>

lemma round_even_of_int [simp]: "round_even (of_int n) = n"
  by (simp add: round_even_def)

lemma round_even_floor: "\<lfloor>x\<rfloor> \<le> round_even x" and round_even_floor1: "round_even x \<le> \<lfloor>x\<rfloor> + 1"
  by (simp_all add: round_even_def Let_def)

lemma round_even_mono:
  assumes "x \<le> y"
  shows "round_even x \<le> round_even y"
proof (cases "\<lfloor>x\<rfloor> = \<lfloor>y\<rfloor>")
  case True
  with assms have "x - of_int \<lfloor>x\<rfloor> \<le> y - of_int \<lfloor>y\<rfloor>" by simp
  with True show ?thesis
    by (auto simp: round_even_def Let_def)
next
  case False
  with assms have "\<lfloor>x\<rfloor> + 1 \<le> \<lfloor>y\<rfloor>"
    using floor_mono [OF assms] by linarith
  with round_even_floor1 [of x] round_even_floor [of y] show ?thesis by linarith
qed

lemma round_even_ge: "of_int k \<le> x \<Longrightarrow> k \<le> round_even x"
  using round_even_mono [of "of_int k" x] by simp

lemma round_even_le: "x \<le> of_int k \<Longrightarrow> round_even x \<le> k"
  using round_even_mono [of x "of_int k"] by simp

lemma ilog2_bounds:
  assumes "0 < x"
  shows "2 powi (ilog2 x) \<le> x" and "x < 2 powi (ilog2 x + 1)"
proof -
  have "2 powi (ilog2 x) \<le> x \<and> x < 2 powi (ilog2 x + 1)"
  proof (cases "1 \<le> x")
    case True
    define n where "n = \<lfloor>x\<rfloor>"
    from True have n: "0 < n" by (simp add: n_def)
    define b where "b = bitlen n"
    from bitlen_bounds [OF n] have lo: "2 ^ nat (b - 1) \<le> n" and hi: "n < 2 ^ nat b"
      by (simp_all add: b_def)
    from n have b: "1 \<le> b" using bitlen_eq_zero_iff [of n] bitlen_nonneg [of n]
      by (simp add: b_def)
    have il: "ilog2 x = b - 1" using True by (simp add: ilog2_def n_def b_def)
    have "(2::rat) powi (b - 1) = of_int (2 ^ nat (b - 1))"
      using b by (simp add: power_int_nonneg_exp)
    also have "\<dots> \<le> of_int n" using lo by (simp only: of_int_le_iff)
    also have "\<dots> \<le> x" by (simp add: n_def)
    finally have 1: "2 powi (b - 1) \<le> x" .
    have "x < of_int (n + 1)" unfolding n_def by linarith
    also have "\<dots> \<le> of_int (2 ^ nat b)" using hi by (simp only: of_int_le_iff)
    also have "\<dots> = (2::rat) powi b" using b by (simp add: power_int_nonneg_exp)
    finally have 2: "x < 2 powi b" .
    from 1 2 il show ?thesis by simp
  next
    case False
    define y where "y = 1 / x"
    from False assms have y: "1 < y" by (simp add: y_def)
    define m where "m = \<lceil>y\<rceil> - 1"
    from y have m: "0 < m" unfolding m_def by linarith
    have my: "of_int m < y" unfolding m_def by linarith
    have ym: "y \<le> of_int (m + 1)" unfolding m_def by simp
    define b where "b = bitlen m"
    from bitlen_bounds [OF m] have lo: "2 ^ nat (b - 1) \<le> m" and hi: "m < 2 ^ nat b"
      by (simp_all add: b_def)
    from m have b: "1 \<le> b" using bitlen_eq_zero_iff [of m] bitlen_nonneg [of m]
      by (simp add: b_def)
    have il: "ilog2 x = - b" using False by (simp add: ilog2_def y_def m_def b_def)
    have x: "x = 1 / y" by (simp add: y_def)
    have "y \<le> of_int (2 ^ nat b)"
      using ym hi by (meson of_int_le_iff order_trans zless_imp_add1_zle)
    also have "\<dots> = (2::rat) powi b" using b by (simp add: power_int_nonneg_exp)
    finally have "y \<le> 2 powi b" .
    with y have "1 / 2 powi b \<le> 1 / y"
      by (intro divide_left_mono) simp_all
    then have 1: "2 powi (- b) \<le> x"
      by (simp add: x power_int_minus_divide)
    have "(2::rat) powi (b - 1) = of_int (2 ^ nat (b - 1))"
      using b by (simp add: power_int_nonneg_exp)
    also have "\<dots> \<le> of_int m" using lo by (simp only: of_int_le_iff)
    also have "\<dots> < y" by (rule my)
    finally have "2 powi (b - 1) < y" .
    with y have "1 / y < 1 / 2 powi (b - 1)"
      by (intro divide_strict_left_mono) simp_all
    then have 2: "x < 2 powi (- b + 1)"
      using power_int_minus_divide [of "2::rat" "b - 1"] by (simp add: x)
    from 1 2 il show ?thesis by simp
  qed
  then show "2 powi (ilog2 x) \<le> x" and "x < 2 powi (ilog2 x + 1)" by simp_all
qed

lemma ilog2_mono:
  assumes "0 < x" and "x \<le> y"
  shows "ilog2 x \<le> ilog2 y"
proof (rule ccontr)
  assume "\<not> ilog2 x \<le> ilog2 y"
  then have "ilog2 y + 1 \<le> ilog2 x" by simp
  then have "(2::rat) powi (ilog2 y + 1) \<le> 2 powi (ilog2 x)"
    by (intro power_int_increasing) simp_all
  with ilog2_bounds(1) [OF assms(1)] ilog2_bounds(2) [of y] assms show False by simp
qed

lemma powi_shift: "(2::rat) ^ n * 2 powi (k - int n) = 2 powi k"
proof -
  have "(2::rat) powi (int n + (k - int n)) = 2 powi (int n) * 2 powi (k - int n)"
    by (rule power_int_add) simp
  then show ?thesis by simp
qed

lemma scaled_bounds:
  assumes "0 < x"
  shows "2 ^ 23 \<le> x * 2 powi (- (ilog2 x - 23))" and "x * 2 powi (- (ilog2 x - 23)) < 2 ^ 24"
proof -
  have p: "(0::rat) < 2 powi (- (ilog2 x - 23))" by simp
  have "(2::rat) ^ 23 = 2 powi (ilog2 x) * 2 powi (- (ilog2 x - 23))"
    by (simp add: power_int_add [symmetric])
  also have "\<dots> \<le> x * 2 powi (- (ilog2 x - 23))"
    using ilog2_bounds(1) [OF assms] p by (intro mult_right_mono) simp_all
  finally show "2 ^ 23 \<le> x * 2 powi (- (ilog2 x - 23))" .
  have "x * 2 powi (- (ilog2 x - 23)) < 2 powi (ilog2 x + 1) * 2 powi (- (ilog2 x - 23))"
    using ilog2_bounds(2) [OF assms] p by (intro mult_strict_right_mono)
  also have "\<dots> = 2 ^ 24"
    by (simp add: power_int_add [symmetric])
  finally show "x * 2 powi (- (ilog2 x - 23)) < 2 ^ 24" .
qed

lemma binary32_pos_bounds:
  assumes "0 < x"
  shows "2 powi (ilog2 x + 0) \<le> binary32 x" and "binary32 x \<le> 2 powi (ilog2 x + 1)"
proof -
  define e where "e = ilog2 x - 23"
  define m where "m = round_even (x * 2 powi (- e))"
  from assms have b: "binary32 x = of_int m * 2 powi e"
    by (simp add: binary32_def Let_def e_def m_def)
  from scaled_bounds [OF assms] have s: "of_int (2 ^ 23) \<le> x * 2 powi (- e)"
    "x * 2 powi (- e) \<le> of_int (2 ^ 24)"
    by (simp_all add: e_def)
  have m: "2 ^ 23 \<le> m" "m \<le> 2 ^ 24"
    unfolding m_def by (rule round_even_ge [OF s(1)], rule round_even_le [OF s(2)])
  have "(2::rat) powi (ilog2 x + 0) = of_int (2 ^ 23) * 2 powi e"
    using powi_shift [of 23 "ilog2 x"] by (simp add: e_def)
  also have "\<dots> \<le> of_int m * 2 powi e"
    using m(1) by (intro mult_right_mono) (simp_all only: of_int_le_iff zero_le_power_int zero_le_numeral)
  finally show "2 powi (ilog2 x + 0) \<le> binary32 x" by (simp add: b)
  have "of_int m * (2::rat) powi e \<le> of_int (2 ^ 24) * 2 powi e"
    using m(2) by (intro mult_right_mono) (simp_all only: of_int_le_iff zero_le_power_int zero_le_numeral)
  also have "\<dots> = 2 powi (ilog2 x + 1)"
    using powi_shift [of 24 "ilog2 x + 1"] by (simp add: e_def)
  finally show "binary32 x \<le> 2 powi (ilog2 x + 1)" by (simp add: b)
qed

lemma binary32_pos: "0 < x \<Longrightarrow> 0 < binary32 x"
  using binary32_pos_bounds(1) [of x] zero_less_power_int [of "2::rat" "ilog2 x + 0"]
  by linarith

lemma binary32_nonpos:
  assumes "x \<le> 0"
  shows "binary32 x \<le> 0"
proof (cases "x = 0")
  case True
  then show ?thesis by (simp add: binary32_def)
next
  case False
  define e where "e = ilog2 \<bar>x\<bar> - 23"
  from assms have "x * 2 powi (- e) \<le> of_int 0"
    by (simp add: mult_nonpos_nonneg)
  then have "round_even (x * 2 powi (- e)) \<le> 0" by (rule round_even_le)
  then have "of_int (round_even (x * 2 powi (- e))) * (2::rat) powi e \<le> 0"
    by (simp add: mult_nonpos_nonneg)
  with False show ?thesis by (simp add: binary32_def Let_def e_def)
qed

lemma binary32_mono_pos:
  assumes "0 < x" and "x \<le> y"
  shows "binary32 x \<le> binary32 y"
proof (cases "ilog2 x = ilog2 y")
  case True
  define e where "e = ilog2 y - 23"
  from assms have y: "0 < y" by simp
  from assms have "x * 2 powi (- e) \<le> y * 2 powi (- e)"
    by (intro mult_right_mono) simp_all
  then have "round_even (x * 2 powi (- e)) \<le> round_even (y * 2 powi (- e))"
    by (rule round_even_mono)
  then have "of_int (round_even (x * 2 powi (- e))) * (2::rat) powi e
      \<le> of_int (round_even (y * 2 powi (- e))) * 2 powi e"
    by (intro mult_right_mono) simp_all
  with assms(1) y True show ?thesis
    by (simp add: binary32_def Let_def e_def)
next
  case False
  from assms have y: "0 < y" by simp
  from False ilog2_mono [OF assms] have "ilog2 x + 1 \<le> ilog2 y + 0" by simp
  then have "(2::rat) powi (ilog2 x + 1) \<le> 2 powi (ilog2 y + 0)"
    by (intro power_int_increasing) simp_all
  with binary32_pos_bounds(2) [OF assms(1)] binary32_pos_bounds(1) [OF y]
  show ?thesis by linarith
qed

lemma binary32_one: "binary32 1 = 1"
  by code_simp

subsection \<open>The scan of the dnodes\<close>

lemma usageOf_le_one:
  assumes "has_room pDnode"
  shows "usageOf pDnode \<le> 1"
proof -
  define a where "a = binary32 (of_int (openVnodes pDnode))"
  define b where "b = binary32 (of_int (numOfTotalVnodes pDnode))"
  from assms have b: "0 < b" by (simp add: b_def binary32_pos)
  show ?thesis
  proof (cases "openVnodes pDnode \<le> 0")
    case True
    then have "a \<le> 0" by (simp add: a_def binary32_nonpos)
    with b have "a / b \<le> 0" by (simp add: divide_nonpos_pos)
    then have "binary32 (a / b) \<le> 0" by (rule binary32_nonpos)
    then show ?thesis by (simp add: usageOf_def a_def b_def)
  next
    case False
    with assms have "a \<le> b" and a: "0 < a"
      by (simp_all add: a_def b_def binary32_mono_pos binary32_pos)
    with b have q: "0 < a / b" "a / b \<le> 1" by simp_all
    from binary32_mono_pos [OF q] show ?thesis
      by (simp add: usageOf_def a_def b_def binary32_one)
  qed
qed

lemma scanDnodes_keeps:
  "\<forall>d \<in> set (filter has_room ds). u < usageOf d \<Longrightarrow> scanDnodes ds sel u = sel"
  by (induction ds arbitrary: sel u) (auto simp: Let_def)

lemma scanDnodes_selects:
  "\<exists>d \<in> set (filter has_room ds). usageOf d \<le> u \<Longrightarrow>
     \<exists>s \<in> set (filter has_room ds). scanDnodes ds sel u = Some s \<and> usageOf s \<le> u \<and>
        (\<forall>d \<in> set (filter has_room ds). usageOf s \<le> usageOf d)"
proof (induction ds arbitrary: sel u)
  case Nil
  then show ?case by simp
next
  case (Cons d ds)
  show ?case
  proof (cases "has_room d \<and> usageOf d \<le> u")
    case True
    show ?thesis
    proof (cases "\<exists>d' \<in> set (filter has_room ds). usageOf d' \<le> usageOf d")
      case True
      from Cons.IH [OF True, of "Some d"] obtain s where s: "s \<in> set (filter has_room ds)"
        "scanDnodes ds (Some d) (usageOf d) = Some s" "usageOf s \<le> usageOf d"
        "\<forall>d' \<in> set (filter has_room ds). usageOf s \<le> usageOf d'"
        by blast
      with \<open>has_room d \<and> usageOf d \<le> u\<close> show ?thesis
        by (intro bexI [of _ s]) (auto simp: Let_def)
    next
      case False
      then have "\<forall>d' \<in> set (filter has_room ds). usageOf d < usageOf d'" by auto
      from scanDnodes_keeps [OF this, of "Some d"] \<open>has_room d \<and> usageOf d \<le> u\<close> this
      show ?thesis
        by (intro bexI [of _ d]) (auto simp: Let_def intro: less_imp_le)
    qed
  next
    case False
    with Cons.prems have ex: "\<exists>d' \<in> set (filter has_room ds). usageOf d' \<le> u"
      by (auto split: if_splits)
    from Cons.IH [OF ex, of sel] obtain s where s: "s \<in> set (filter has_room ds)"
      "scanDnodes ds sel u = Some s" "usageOf s \<le> u"
      "\<forall>d' \<in> set (filter has_room ds). usageOf s \<le> usageOf d'"
      by blast
    with False show ?thesis
      by (intro bexI [of _ s]) (auto simp: Let_def)
  qed
qed

subsection \<open>The bucket index\<close>

text \<open>
  C5. The claim: for every address, port and kind, also a negative kind, the index that
  \<open>put\<close> and \<open>get\<close> use is the sum modulo the number of buckets and lies in
  \<open>[0, bucketCount)\<close>. In the code the sum is an \<open>int\<close> and \<open>%\<close> keeps the sign of the
  dividend: with 10 buckets, address 0, port 0 and kind -1 the index is -1, and both
  \<open>rpcAddConnIntoCache\<close> and \<open>rpcGetConnFromCache\<close> index the lock array and the bucket
  array at -1.
\<close>

theorem rpcHashConn_negative_index:
  "rpcHashConn (rpcOpenConnCache 10 100 7) 0 0 (- 1) = Inr (- 1) \<and>
   rpcAddConnIntoCache (rpcOpenConnCache 10 100 7) 11 0 0 (- 1) 0 = Inl OutOfBounds \<and>
   rpcGetConnFromCache (rpcOpenConnCache 10 100 7) 0 0 (- 1) 0 = Inl OutOfBounds"
  by (simp add: rpcHashConn_def rpcOpenConnCache_def smod_int_alt_def
      rpcAddConnIntoCache_def rpcGetConnFromCache_def taosMemPoolMalloc_def taosMemPoolInit_def)

subsection \<open>A full pool\<close>

text \<open>
  C1. The claim: a \<open>put\<close> that finds no free slot fails in a way the caller can tell and
  recover from; with capacity 2 the third of three \<open>put\<close>s into one bucket either evicts
  the stale tail or fails with capacity exhaustion. In the code \<open>rpcAddConnIntoCache\<close>
  returns \<open>void\<close>, takes the slot before it looks at the bucket and writes through the
  pointer untested: the third \<open>put\<close> writes through the null pointer, whether the two
  entries of the bucket have reached the keep time (clock 200) or not (clock 2).
\<close>

theorem put_on_full_pool_null_dereference:
  "run (rpcOpenConnCache 2 100 7) [Put 11 1 0 0 0, Put 12 3 0 0 1, Put 13 5 0 0 2]
     = Inl NullDereference \<and>
   run (rpcOpenConnCache 2 100 7) [Put 11 1 0 0 0, Put 12 3 0 0 1, Put 13 5 0 0 200]
     = Inl NullDereference"
  by code_simp

subsection \<open>Counters\<close>

text \<open>
  C8. After every sequence of \<open>put\<close>, \<open>get\<close> and sweep calls on a cache that
  \<open>rpcOpenConnCache\<close> returned, the counter of each bucket is the length of the list of
  the bucket. The sequence is arbitrary, so this holds after each call of a longer
  sequence, and for the sequences that stay in one bucket.
\<close>

theorem counter_equals_list_length:
  assumes "run (rpcOpenConnCache n k tmr) cs = Inr pCache"
    and "h < length (connHashList pCache)"
  shows "count pCache ! h = int (length (connHashList pCache ! h))"
proof -
  from run_invariants [OF open_arrays_ok open_counted assms(1)]
  have "counted pCache" by simp
  with assms(2) show ?thesis by (simp add: counted_def)
qed

theorem counter_equals_list_length_witness:
  "run (rpcOpenConnCache 4 100 7) [Put 11 1 0 0 0, Put 12 5 0 0 50, Put 13 1 0 0 60]
     = Inr (sample_cache [node 13 1 60, node 12 5 50, node 11 1 0] []) \<and>
   1 < length (connHashList (sample_cache [node 13 1 60, node 12 5 50, node 11 1 0] [])) \<and>
   count (sample_cache [node 13 1 60, node 12 5 50, node 11 1 0] []) ! 1 = int (length (connHashList (sample_cache [node 13 1 60, node 12 5 50, node 11 1 0] []) ! 1))"
proof -
  have r: "run (rpcOpenConnCache 4 100 7) [Put 11 1 0 0 0, Put 12 5 0 0 50, Put 13 1 0 0 60]
     = Inr (sample_cache [node 13 1 60, node 12 5 50, node 11 1 0] [])"
    by (rule sample_runs(3))
  have l: "1 < length (connHashList (sample_cache [node 13 1 60, node 12 5 50, node 11 1 0] []))"
    by (simp add: sample_cache_def)
  from counter_equals_list_length [OF r l] r l show ?thesis by simp
qed

subsection \<open>Insertion followed by lookup\<close>

text \<open>
  C6. A \<open>put\<close> of a payload \<open>d\<close> that returns, followed by a \<open>get\<close> of the same
  address, port and kind at a clock value before the keep time of the new entry has
  elapsed (the sum of the time of the \<open>put\<close> and the keep time fitting 64 bits),
  returns \<open>d\<close>, which is not null. The new entry is the head of its bucket after the
  \<open>put\<close>, and the \<open>get\<close> takes it out: what stays is the list behind it, or nothing
  if the entry behind it has reached the keep time. The counter follows.
\<close>

theorem put_then_get_returns_payload:
  assumes ok: "arrays_ok pCache"
    and put: "rpcAddConnIntoCache pCache d ip' port' ct t = Inr pCache1"
    and nowrap: "unat t + unat (keepTimer pCache) < 2 ^ 64"
    and before: "unat t' < unat t + unat (keepTimer pCache)"
  shows "\<exists>pCache2 h rest. d \<noteq> 0 \<and> h < length (connHashList pCache1) \<and>
      connHashList pCache1 ! h =
        \<lparr>ip = ip', port = port', connType = ct, data = d, time = t\<rparr> # rest \<and>
      rpcGetConnFromCache pCache1 ip' port' ct t' = Inr (d, pCache2) \<and>
      connHashList pCache2 =
        (connHashList pCache1)[h := if rest \<noteq> [] \<and> expired pCache (hd rest) t' then [] else rest] \<and>
      count pCache2 ! h = count pCache1 ! h - 1 -
        (if rest \<noteq> [] \<and> expired pCache (hd rest) t' then int (length rest) else 0)"
proof -
  from put obtain hash where hash: "rpcHashConn pCache ip' port' ct = Inr hash"
    by (rule put_hash)
  note f = put_fields [OF ok put hash]
  define pNode where "pNode = \<lparr>ip = ip', port = port', connType = ct, data = d, time = t\<rparr>"
  from nowrap before have fresh: "\<not> expired pCache pNode t'"
    by (simp add: expired_nat pNode_def)
  from put_arrays_ok [OF ok put] f(2,8)
  have len1: "nat hash < length (connHashList pCache1)" and lenc1: "nat hash < length (count pCache1)"
    using f(1) by (simp_all add: arrays_ok_def)
  from f(4,5) have b1: "connHashList pCache1 ! nat hash = pNode # tl (connHashList pCache1 ! nat hash)"
    by (simp add: pNode_def)
  from get_after_put [OF ok put hash fresh [unfolded pNode_def]]
  obtain pCache2 where g: "rpcGetConnFromCache pCache1 ip' port' ct t' = Inr (d, pCache2)"
    "connHashList pCache2 = (connHashList pCache1)[nat hash :=
       if tl (connHashList pCache1 ! nat hash) \<noteq> [] \<and> expired pCache (hd (tl (connHashList pCache1 ! nat hash))) t'
       then [] else tl (connHashList pCache1 ! nat hash)]"
    "count pCache2 = (count pCache1)[nat hash := count pCache1 ! nat hash -
        (if tl (connHashList pCache1 ! nat hash) \<noteq> [] \<and> expired pCache (hd (tl (connHashList pCache1 ! nat hash))) t'
         then int (length (tl (connHashList pCache1 ! nat hash))) else 0) - 1]"
    by blast
  from g(3) lenc1 have c: "count pCache2 ! nat hash = count pCache1 ! nat hash - 1 -
        (if tl (connHashList pCache1 ! nat hash) \<noteq> [] \<and> expired pCache (hd (tl (connHashList pCache1 ! nat hash))) t'
         then int (length (tl (connHashList pCache1 ! nat hash))) else 0)"
    by simp
  show ?thesis
    apply (rule exI [of _ pCache2])
    apply (rule exI [of _ "nat hash"])
    apply (rule exI [of _ "tl (connHashList pCache1 ! nat hash)"])
    using f(3) len1 b1 g(1,2) c unfolding pNode_def by (intro conjI) assumption+
qed

theorem put_then_get_returns_payload_witness:
  "arrays_ok (rpcOpenConnCache 4 100 7) \<and>
   rpcAddConnIntoCache (rpcOpenConnCache 4 100 7) 11 1 0 0 0 = Inr (sample_cache [node 11 1 0] []) \<and>
   unat (0 :: 64 word) + unat (keepTimer (rpcOpenConnCache 4 100 7)) < 2 ^ 64 \<and>
   unat (50 :: 64 word) < unat (0 :: 64 word) + unat (keepTimer (rpcOpenConnCache 4 100 7)) \<and>
   (\<exists>pCache2 h rest. (11 :: nat) \<noteq> 0 \<and> h < length (connHashList (sample_cache [node 11 1 0] [])) \<and>
      connHashList (sample_cache [node 11 1 0] []) ! h =
        \<lparr>ip = 1, port = 0, connType = 0, data = 11, time = 0\<rparr> # rest \<and>
      rpcGetConnFromCache (sample_cache [node 11 1 0] []) 1 0 0 50 = Inr (11, pCache2) \<and>
      connHashList pCache2 =
        (connHashList (sample_cache [node 11 1 0] []))
          [h := if rest \<noteq> [] \<and> expired (rpcOpenConnCache 4 100 7) (hd rest) 50 then [] else rest] \<and>
      count pCache2 ! h = count (sample_cache [node 11 1 0] []) ! h - 1 -
        (if rest \<noteq> [] \<and> expired (rpcOpenConnCache 4 100 7) (hd rest) 50 then int (length rest) else 0))"
proof -
  have a: "arrays_ok (rpcOpenConnCache 4 100 7)"
    by (rule open_arrays_ok)
  have b: "rpcAddConnIntoCache (rpcOpenConnCache 4 100 7) 11 1 0 0 0 = Inr (sample_cache [node 11 1 0] [])"
    by code_simp
  have c: "unat (0 :: 64 word) + unat (keepTimer (rpcOpenConnCache 4 100 7)) < 2 ^ 64"
    by (simp add: rpcOpenConnCache_def)
  have d: "unat (50 :: 64 word) < unat (0 :: 64 word) + unat (keepTimer (rpcOpenConnCache 4 100 7))"
    by (simp add: rpcOpenConnCache_def)
  from put_then_get_returns_payload [OF a b c d] a b c d show ?thesis
    by (intro conjI) assumption+
qed

subsection \<open>Lookup of an entry that has reached the keep time\<close>

text \<open>
  C2, as amended. Let an entry of a bucket have the address, port and kind of a \<open>get\<close>,
  let the clock of the \<open>get\<close> be at least the time of the entry plus the keep time (the
  sum fitting 64 bits), and let every entry of that key that is ahead of it in the list
  have reached the keep time too. Then the \<open>get\<close> returns null, a miss. It cuts the list
  at position \<open>j\<close>, the first entry of the list that has reached the keep time: no entry
  ahead of \<open>j\<close> has reached it, and \<open>j\<close> is at or ahead of the entry. So the entry and
  everything behind it leave the bucket, \<open>cleanFp\<close> is called once on the payload of each
  entry from \<open>j\<close> on, in list order, and the counter goes down by their number.
\<close>

theorem get_of_expired_entry_misses:
  assumes ok: "arrays_ok pCache"
    and hash: "rpcHashConn pCache ip' port' ct = Inr hash" "0 \<le> hash" "hash < maxSessions pCache"
    and i: "i < length (connHashList pCache ! nat hash)"
    and key: "ip (connHashList pCache ! nat hash ! i) = ip'"
      "port (connHashList pCache ! nat hash ! i) = port'"
      "connType (connHashList pCache ! nat hash ! i) = ct"
    and ahead: "\<forall>k < i. ip (connHashList pCache ! nat hash ! k) = ip' \<and>
        port (connHashList pCache ! nat hash ! k) = port' \<and>
        connType (connHashList pCache ! nat hash ! k) = ct \<longrightarrow>
        expired pCache (connHashList pCache ! nat hash ! k) t"
    and nowrap: "unat (time (connHashList pCache ! nat hash ! i)) + unat (keepTimer pCache) < 2 ^ 64"
    and late: "unat (time (connHashList pCache ! nat hash ! i)) + unat (keepTimer pCache) \<le> unat t"
  shows "\<exists>pCache' j. j \<le> i \<and>
      expired pCache (connHashList pCache ! nat hash ! j) t \<and>
      (\<forall>k < j. \<not> expired pCache (connHashList pCache ! nat hash ! k) t) \<and>
      rpcGetConnFromCache pCache ip' port' ct t = Inr (0, pCache') \<and>
      connHashList pCache' = (connHashList pCache)[nat hash := take j (connHashList pCache ! nat hash)] \<and>
      cleaned pCache' = cleaned pCache @ map data (drop j (connHashList pCache ! nat hash)) \<and>
      count pCache' = (count pCache)[nat hash :=
        count pCache ! nat hash - int (length (connHashList pCache ! nat hash) - j)]"
proof -
  define nodes where "nodes = connHashList pCache ! nat hash"
  from nowrap late have ex: "expired pCache (nodes ! i) t"
    by (simp add: expired_nat nodes_def)
  show ?thesis
  proof (cases "findNode pCache nodes 0 ip' port' ct t")
    case AtEnd
    with i ex have False
      by (auto simp: findNode_AtEnd nodes_def)
    then show ?thesis ..
  next
    case (Stale j)
    from findNode_Stale [OF Stale]
    have j: "j < length nodes" "expired pCache (nodes ! j) t"
      and before: "\<forall>k < j. \<not> expired pCache (nodes ! k) t"
      by simp_all
    from before ex have le: "j \<le> i" by (meson not_le_imp_less)
    have "rpcGetConnFromCache pCache ip' port' ct t =
            Inr (0, rpcRemoveExpiredNodes pCache j (nat hash) t)"
      using hash Stale by (intro get_Stale) (simp_all add: nodes_def)
    with j le before show ?thesis
      apply -
      apply (rule exI [of _ "rpcRemoveExpiredNodes pCache j (nat hash) t"], rule exI [of _ j])
      by (simp add: remove_expired_eq nodes_def [symmetric])
  next
    case (Hit j)
    from findNode_Hit [OF Hit]
    have j: "j < length nodes" "\<not> expired pCache (nodes ! j) t"
      "ip (nodes ! j) = ip' \<and> port (nodes ! j) = port' \<and> connType (nodes ! j) = ct"
      and before: "\<forall>k < j. \<not> expired pCache (nodes ! k) t"
      by simp_all
    have False
    proof (cases j i rule: linorder_cases)
      case less
      with ahead j(2,3) show False unfolding nodes_def by blast
    next
      case equal
      with ex j(2) show False by simp
    next
      case greater
      with before ex show False by simp
    qed
    then show ?thesis ..
  qed
qed

theorem get_of_expired_entry_misses_witness:
  "arrays_ok (sample_cache [node 13 1 30, node 12 5 20, node 11 1 0] []) \<and>
   rpcHashConn (sample_cache [node 13 1 30, node 12 5 20, node 11 1 0] []) 1 0 0 = Inr 1 \<and>
   (0 :: int) \<le> 1 \<and> 1 < maxSessions (sample_cache [node 13 1 30, node 12 5 20, node 11 1 0] []) \<and>
   2 < length (connHashList (sample_cache [node 13 1 30, node 12 5 20, node 11 1 0] []) ! nat 1) \<and>
   ip (connHashList (sample_cache [node 13 1 30, node 12 5 20, node 11 1 0] []) ! nat 1 ! 2) = 1 \<and>
   port (connHashList (sample_cache [node 13 1 30, node 12 5 20, node 11 1 0] []) ! nat 1 ! 2) = 0 \<and>
   connType (connHashList (sample_cache [node 13 1 30, node 12 5 20, node 11 1 0] []) ! nat 1 ! 2) = 0 \<and>
   ip (connHashList (sample_cache [node 13 1 30, node 12 5 20, node 11 1 0] []) ! nat 1 ! 0) = 1 \<and>
   expired (sample_cache [node 13 1 30, node 12 5 20, node 11 1 0] [])
     (connHashList (sample_cache [node 13 1 30, node 12 5 20, node 11 1 0] []) ! nat 1 ! 0) 130 \<and>
   ip (connHashList (sample_cache [node 13 1 30, node 12 5 20, node 11 1 0] []) ! nat 1 ! 1) \<noteq> 1 \<and>
   unat (time (connHashList (sample_cache [node 13 1 30, node 12 5 20, node 11 1 0] []) ! nat 1 ! 2))
     + unat (keepTimer (sample_cache [node 13 1 30, node 12 5 20, node 11 1 0] [])) < 2 ^ 64 \<and>
   unat (time (connHashList (sample_cache [node 13 1 30, node 12 5 20, node 11 1 0] []) ! nat 1 ! 2))
     + unat (keepTimer (sample_cache [node 13 1 30, node 12 5 20, node 11 1 0] [])) \<le> unat (130 :: 64 word) \<and>
   (\<exists>pCache' j. j \<le> 2 \<and>
      expired (sample_cache [node 13 1 30, node 12 5 20, node 11 1 0] [])
        (connHashList (sample_cache [node 13 1 30, node 12 5 20, node 11 1 0] []) ! nat 1 ! j) 130 \<and>
      rpcGetConnFromCache (sample_cache [node 13 1 30, node 12 5 20, node 11 1 0] []) 1 0 0 130
        = Inr (0, pCache') \<and>
      connHashList pCache' =
        (connHashList (sample_cache [node 13 1 30, node 12 5 20, node 11 1 0] []))
          [nat 1 := take j (connHashList (sample_cache [node 13 1 30, node 12 5 20, node 11 1 0] []) ! nat 1)] \<and>
      cleaned pCache' = cleaned (sample_cache [node 13 1 30, node 12 5 20, node 11 1 0] []) @
        map data (drop j (connHashList (sample_cache [node 13 1 30, node 12 5 20, node 11 1 0] []) ! nat 1)) \<and>
      count pCache' = (count (sample_cache [node 13 1 30, node 12 5 20, node 11 1 0] []))[nat 1 :=
        count (sample_cache [node 13 1 30, node 12 5 20, node 11 1 0] []) ! nat 1
          - int (length (connHashList (sample_cache [node 13 1 30, node 12 5 20, node 11 1 0] []) ! nat 1) - j)])"
proof -
  have a: "arrays_ok (sample_cache [node 13 1 30, node 12 5 20, node 11 1 0] [])"
    by (simp add: arrays_ok_def sample_cache_def)
  have b: "rpcHashConn (sample_cache [node 13 1 30, node 12 5 20, node 11 1 0] []) 1 0 0 = Inr 1"
    by code_simp
  have c: "(0 :: int) \<le> 1" "1 < maxSessions (sample_cache [node 13 1 30, node 12 5 20, node 11 1 0] [])"
    by (simp_all add: sample_cache_def)
  have d: "2 < length (connHashList (sample_cache [node 13 1 30, node 12 5 20, node 11 1 0] []) ! nat 1)"
    by (simp add: sample_cache_def)
  have e: "ip (connHashList (sample_cache [node 13 1 30, node 12 5 20, node 11 1 0] []) ! nat 1 ! 2) = 1"
    "port (connHashList (sample_cache [node 13 1 30, node 12 5 20, node 11 1 0] []) ! nat 1 ! 2) = 0"
    "connType (connHashList (sample_cache [node 13 1 30, node 12 5 20, node 11 1 0] []) ! nat 1 ! 2) = 0"
    by (simp_all add: sample_cache_def node_def)
  have f0: "ip (connHashList (sample_cache [node 13 1 30, node 12 5 20, node 11 1 0] []) ! nat 1 ! 0) = 1"
    by (simp add: sample_cache_def node_def)
  have f1: "expired (sample_cache [node 13 1 30, node 12 5 20, node 11 1 0] [])
     (connHashList (sample_cache [node 13 1 30, node 12 5 20, node 11 1 0] []) ! nat 1 ! 0) 130"
    by (simp add: sample_cache_def node_def expired_def)
  have f2: "ip (connHashList (sample_cache [node 13 1 30, node 12 5 20, node 11 1 0] []) ! nat 1 ! 1) \<noteq> 1"
    by (simp add: sample_cache_def node_def)
  have f: "\<forall>k < 2. ip (connHashList (sample_cache [node 13 1 30, node 12 5 20, node 11 1 0] []) ! nat 1 ! k) = 1 \<and>
        port (connHashList (sample_cache [node 13 1 30, node 12 5 20, node 11 1 0] []) ! nat 1 ! k) = 0 \<and>
        connType (connHashList (sample_cache [node 13 1 30, node 12 5 20, node 11 1 0] []) ! nat 1 ! k) = 0 \<longrightarrow>
        expired (sample_cache [node 13 1 30, node 12 5 20, node 11 1 0] [])
          (connHashList (sample_cache [node 13 1 30, node 12 5 20, node 11 1 0] []) ! nat 1 ! k) 130"
    using f1 f2 by (auto simp: less_Suc_eq numeral_2_eq_2)
  have g: "unat (time (connHashList (sample_cache [node 13 1 30, node 12 5 20, node 11 1 0] []) ! nat 1 ! 2))
     + unat (keepTimer (sample_cache [node 13 1 30, node 12 5 20, node 11 1 0] [])) < 2 ^ 64"
    by (simp add: sample_cache_def node_def)
  have h: "unat (time (connHashList (sample_cache [node 13 1 30, node 12 5 20, node 11 1 0] []) ! nat 1 ! 2))
     + unat (keepTimer (sample_cache [node 13 1 30, node 12 5 20, node 11 1 0] [])) \<le> unat (130 :: 64 word)"
    by (simp add: sample_cache_def node_def)
  from get_of_expired_entry_misses [OF a b c d e f g h]
  have r: "\<exists>pCache' j. j \<le> 2 \<and>
      expired (sample_cache [node 13 1 30, node 12 5 20, node 11 1 0] [])
        (connHashList (sample_cache [node 13 1 30, node 12 5 20, node 11 1 0] []) ! nat 1 ! j) 130 \<and>
      rpcGetConnFromCache (sample_cache [node 13 1 30, node 12 5 20, node 11 1 0] []) 1 0 0 130
        = Inr (0, pCache') \<and>
      connHashList pCache' =
        (connHashList (sample_cache [node 13 1 30, node 12 5 20, node 11 1 0] []))
          [nat 1 := take j (connHashList (sample_cache [node 13 1 30, node 12 5 20, node 11 1 0] []) ! nat 1)] \<and>
      cleaned pCache' = cleaned (sample_cache [node 13 1 30, node 12 5 20, node 11 1 0] []) @
        map data (drop j (connHashList (sample_cache [node 13 1 30, node 12 5 20, node 11 1 0] []) ! nat 1)) \<and>
      count pCache' = (count (sample_cache [node 13 1 30, node 12 5 20, node 11 1 0] []))[nat 1 :=
        count (sample_cache [node 13 1 30, node 12 5 20, node 11 1 0] []) ! nat 1
          - int (length (connHashList (sample_cache [node 13 1 30, node 12 5 20, node 11 1 0] []) ! nat 1) - j)]"
    by (elim exE conjE) (rule exI, rule exI, (rule conjI, assumption)+, assumption)
  from a b c d e f0 f1 f2 g h r show ?thesis
    by (intro conjI) assumption+
qed

text \<open>
  C2 as stated fails where a younger entry of the same key is ahead: the entry with
  payload 11 was put at clock 0 and never retrieved; at clock 100, which is 0 + 100, the
  \<open>get\<close> of its key returns the payload 13 put at clock 60, not a miss, and since the
  entry behind that one (put at clock 50) has not reached the keep time, nothing is
  evicted: the entry with payload 11 stays in the list and \<open>cleanFp\<close> is not called.
\<close>

theorem get_hits_fresh_duplicate:
  "run (rpcOpenConnCache 4 100 7) [Put 11 1 0 0 0, Put 12 5 0 0 50, Put 13 1 0 0 60]
     = Inr (sample_cache [node 13 1 60, node 12 5 50, node 11 1 0] []) \<and>
   rpcGetConnFromCache (sample_cache [node 13 1 60, node 12 5 50, node 11 1 0] []) 1 0 0 100
     = Inr (13, sample_cache [node 12 5 50, node 11 1 0] [])"
  by (intro conjI; code_simp)

subsection \<open>Insertion of a key that is already there\<close>

text \<open>
  C10, as amended. \<open>rpcAddConnIntoCache\<close> does not look for the key. Where the bucket
  holds an entry of the key and its former head has not reached the keep time at the
  \<open>put\<close>, the new entry becomes the head and the whole former list, the old entry
  included, stays behind it; \<open>cleanFp\<close> is not called. A following \<open>get\<close> of the key,
  before the new entry has reached the keep time, returns the payload of the new entry,
  the match nearest to the head, and takes only that entry out if the former head has
  not reached the keep time at the \<open>get\<close>; if it has, the \<open>get\<close> evicts the whole
  former list, the older duplicates included.
\<close>

theorem put_keeps_fresh_list:
  assumes ok: "arrays_ok pCache"
    and put: "rpcAddConnIntoCache pCache d ip' port' ct t = Inr pCache1"
    and hash: "rpcHashConn pCache ip' port' ct = Inr hash"
    and old: "old \<in> set (connHashList pCache ! nat hash)"
      "ip old = ip'" "port old = port'" "connType old = ct"
    and head_fresh: "\<not> expired pCache (hd (connHashList pCache ! nat hash)) t"
    and new_fresh: "\<not> expired pCache \<lparr>ip = ip', port = port', connType = ct, data = d, time = t\<rparr> t'"
  shows "connHashList pCache1 =
           (connHashList pCache)[nat hash :=
              \<lparr>ip = ip', port = port', connType = ct, data = d, time = t\<rparr> # connHashList pCache ! nat hash] \<and>
         cleaned pCache1 = cleaned pCache \<and>
         (\<exists>pCache2. rpcGetConnFromCache pCache1 ip' port' ct t' = Inr (d, pCache2) \<and>
            connHashList pCache2 =
              (connHashList pCache)[nat hash :=
                 if expired pCache (hd (connHashList pCache ! nat hash)) t' then []
                 else connHashList pCache ! nat hash] \<and>
            cleaned pCache2 = cleaned pCache @
              (if expired pCache (hd (connHashList pCache ! nat hash)) t'
               then map data (connHashList pCache ! nat hash) else []))"
proof -
  note f = put_fields [OF ok put hash]
  from old(1) have ne: "connHashList pCache ! nat hash \<noteq> []" by auto
  from f(5) head_fresh have l1: "connHashList pCache1 =
           (connHashList pCache)[nat hash :=
              \<lparr>ip = ip', port = port', connType = ct, data = d, time = t\<rparr> # connHashList pCache ! nat hash]"
    by simp
  from f(6) head_fresh have c1: "cleaned pCache1 = cleaned pCache" by simp
  from l1 f(4) have tl1: "tl (connHashList pCache1 ! nat hash) = connHashList pCache ! nat hash"
    by simp
  from get_after_put [OF ok put hash new_fresh]
  obtain pCache2 where g: "rpcGetConnFromCache pCache1 ip' port' ct t' = Inr (d, pCache2)"
    "connHashList pCache2 = (connHashList pCache1)[nat hash :=
       if tl (connHashList pCache1 ! nat hash) \<noteq> [] \<and> expired pCache (hd (tl (connHashList pCache1 ! nat hash))) t'
       then [] else tl (connHashList pCache1 ! nat hash)]"
    "cleaned pCache2 = cleaned pCache1 @
       (if tl (connHashList pCache1 ! nat hash) \<noteq> [] \<and> expired pCache (hd (tl (connHashList pCache1 ! nat hash))) t'
        then map data (tl (connHashList pCache1 ! nat hash)) else [])"
    by blast
  have "connHashList pCache2 =
              (connHashList pCache)[nat hash :=
                 if expired pCache (hd (connHashList pCache ! nat hash)) t' then []
                 else connHashList pCache ! nat hash]"
    unfolding g(2) tl1 using ne by (simp add: l1)
  moreover have "cleaned pCache2 = cleaned pCache @
              (if expired pCache (hd (connHashList pCache ! nat hash)) t'
               then map data (connHashList pCache ! nat hash) else [])"
    unfolding g(3) tl1 c1 using ne by simp
  ultimately show ?thesis using l1 c1 g(1) by blast
qed

theorem put_keeps_fresh_list_witness:
  "arrays_ok (sample_cache [node 11 1 0] []) \<and>
   rpcAddConnIntoCache (sample_cache [node 11 1 0] []) 12 1 0 0 50
     = Inr (sample_cache [node 12 1 50, node 11 1 0] []) \<and>
   rpcHashConn (sample_cache [node 11 1 0] []) 1 0 0 = Inr 1 \<and>
   node 11 1 0 \<in> set (connHashList (sample_cache [node 11 1 0] []) ! nat 1) \<and>
   ip (node 11 1 0) = 1 \<and> port (node 11 1 0) = 0 \<and> connType (node 11 1 0) = 0 \<and>
   \<not> expired (sample_cache [node 11 1 0] [])
       (hd (connHashList (sample_cache [node 11 1 0] []) ! nat 1)) 50 \<and>
   \<not> expired (sample_cache [node 11 1 0] [])
       \<lparr>ip = 1, port = 0, connType = 0, data = 12, time = 50\<rparr> 60 \<and>
   connHashList (sample_cache [node 12 1 50, node 11 1 0] []) =
     (connHashList (sample_cache [node 11 1 0] []))[nat 1 :=
        \<lparr>ip = 1, port = 0, connType = 0, data = 12, time = 50\<rparr> #
        connHashList (sample_cache [node 11 1 0] []) ! nat 1] \<and>
   cleaned (sample_cache [node 12 1 50, node 11 1 0] []) = cleaned (sample_cache [node 11 1 0] []) \<and>
   (\<exists>pCache2. rpcGetConnFromCache (sample_cache [node 12 1 50, node 11 1 0] []) 1 0 0 60
        = Inr (12, pCache2) \<and>
      connHashList pCache2 =
        (connHashList (sample_cache [node 11 1 0] []))[nat 1 :=
           if expired (sample_cache [node 11 1 0] [])
                (hd (connHashList (sample_cache [node 11 1 0] []) ! nat 1)) 60 then []
           else connHashList (sample_cache [node 11 1 0] []) ! nat 1] \<and>
      cleaned pCache2 = cleaned (sample_cache [node 11 1 0] []) @
        (if expired (sample_cache [node 11 1 0] [])
              (hd (connHashList (sample_cache [node 11 1 0] []) ! nat 1)) 60
         then map data (connHashList (sample_cache [node 11 1 0] []) ! nat 1) else []))"
proof -
  have a: "arrays_ok (sample_cache [node 11 1 0] [])"
    by (simp add: arrays_ok_def sample_cache_def)
  have b: "rpcAddConnIntoCache (sample_cache [node 11 1 0] []) 12 1 0 0 50
     = Inr (sample_cache [node 12 1 50, node 11 1 0] [])"
    by code_simp
  have c: "rpcHashConn (sample_cache [node 11 1 0] []) 1 0 0 = Inr 1"
    by code_simp
  have d: "node 11 1 0 \<in> set (connHashList (sample_cache [node 11 1 0] []) ! nat 1)"
    by (simp add: sample_cache_def)
  have e: "ip (node 11 1 0) = 1" "port (node 11 1 0) = 0" "connType (node 11 1 0) = 0"
    by (simp_all add: node_def)
  have f: "\<not> expired (sample_cache [node 11 1 0] [])
       (hd (connHashList (sample_cache [node 11 1 0] []) ! nat 1)) 50"
    by (simp add: sample_cache_def node_def expired_def)
  have g: "\<not> expired (sample_cache [node 11 1 0] [])
       \<lparr>ip = 1, port = 0, connType = 0, data = 12, time = 50\<rparr> 60"
    by (simp add: sample_cache_def expired_def)
  from put_keeps_fresh_list [OF a b c d e f g] a b c d e f g show ?thesis
    by (intro conjI) (assumption | erule conjunct1 | erule conjunct2 [THEN conjunct1] | erule conjunct2 [THEN conjunct2])+
qed

text \<open>
  C10 as stated fails where the keep time has run out. A \<open>put\<close> of the key of the
  entry with payload 11 (put at clock 0) at clock 100 evicts that entry: the bucket holds
  the new entry alone. And after two \<open>put\<close>s of one key at the clocks 0 and 50, the
  \<open>get\<close> at clock 100 returns the payload 12 and evicts the older duplicate: the bucket
  is empty.
\<close>

theorem put_evicts_stale_duplicate:
  "run (rpcOpenConnCache 4 100 7) [Put 11 1 0 0 0] = Inr (sample_cache [node 11 1 0] []) \<and>
   rpcAddConnIntoCache (sample_cache [node 11 1 0] []) 12 1 0 0 100
     = Inr (sample_cache [node 12 1 100] [11]) \<and>
   run (rpcOpenConnCache 4 100 7) [Put 11 1 0 0 0, Put 12 1 0 0 50]
     = Inr (sample_cache [node 12 1 50, node 11 1 0] []) \<and>
   rpcGetConnFromCache (sample_cache [node 12 1 50, node 11 1 0] []) 1 0 0 100
     = Inr (12, sample_cache [] [11])"
  by (intro conjI; code_simp)

subsection \<open>The periodic sweep\<close>

text \<open>
  C3. A run of \<open>rpcCleanConnCache\<close> for the timer that is set, on a cache with buckets,
  decides for each bucket by its head alone. If the head has reached the keep time the
  list of the bucket is empty afterwards and its counter, which was the length of the
  list, is 0; otherwise the list and the counter are as before, whatever the age of the
  entries behind the head. \<open>cleanFp\<close> is called on every payload of the buckets whose
  head has reached the keep time, bucket after bucket and from head to tail, and on
  nothing else.
\<close>

theorem sweep_examines_head:
  assumes ok: "arrays_ok pCache"
    and cnt: "count pCache ! h = int (length (connHashList pCache ! h))"
    and opened: "maxSessions pCache \<noteq> 0"
    and timer: "pTimer pCache = tmrId"
    and h: "h < length (connHashList pCache)"
  shows "(if connHashList pCache ! h \<noteq> [] \<and> expired pCache (hd (connHashList pCache ! h)) t
          then connHashList (rpcCleanConnCache pCache tmrId t tmr) ! h = [] \<and>
               count (rpcCleanConnCache pCache tmrId t tmr) ! h = 0
          else connHashList (rpcCleanConnCache pCache tmrId t tmr) ! h = connHashList pCache ! h \<and>
               count (rpcCleanConnCache pCache tmrId t tmr) ! h = count pCache ! h) \<and>
         cleaned (rpcCleanConnCache pCache tmrId t tmr) =
           cleaned pCache @
           concat (map (\<lambda>nodes. if nodes \<noteq> [] \<and> expired pCache (hd nodes) t
                                 then map data nodes else [])
                    (connHashList pCache))"
proof -
  from sweepBuckets_effect [OF ok, of 0 t] h
  have b: "connHashList (sweepBuckets pCache 0 t) ! h =
          (if connHashList pCache ! h \<noteq> [] \<and> expired pCache (hd (connHashList pCache ! h)) t
           then [] else connHashList pCache ! h)"
    and c: "count (sweepBuckets pCache 0 t) ! h =
          (if connHashList pCache ! h \<noteq> [] \<and> expired pCache (hd (connHashList pCache ! h)) t
           then count pCache ! h - int (length (connHashList pCache ! h)) else count pCache ! h)"
    and d: "cleaned (sweepBuckets pCache 0 t) =
       cleaned pCache @
       concat (map (\<lambda>nodes. if nodes \<noteq> [] \<and> expired pCache (hd nodes) t then map data nodes else [])
                (connHashList pCache))"
    by simp_all
  show ?thesis
    unfolding clean_eq [OF opened timer] using b c d cnt by simp
qed

theorem sweep_examines_head_witness:
  "arrays_ok (sample_cache [node 13 1 60, node 12 5 50, node 11 1 0] []) \<and>
   count (sample_cache [node 13 1 60, node 12 5 50, node 11 1 0] []) ! 1 =
     int (length (connHashList (sample_cache [node 13 1 60, node 12 5 50, node 11 1 0] []) ! 1)) \<and>
   maxSessions (sample_cache [node 13 1 60, node 12 5 50, node 11 1 0] []) \<noteq> 0 \<and>
   pTimer (sample_cache [node 13 1 60, node 12 5 50, node 11 1 0] []) = 7 \<and>
   1 < length (connHashList (sample_cache [node 13 1 60, node 12 5 50, node 11 1 0] [])) \<and>
   expired (sample_cache [node 13 1 60, node 12 5 50, node 11 1 0] []) (node 11 1 0) 100 \<and>
   connHashList (rpcCleanConnCache (sample_cache [node 13 1 60, node 12 5 50, node 11 1 0] []) 7 100 8) ! 1
     = [node 13 1 60, node 12 5 50, node 11 1 0] \<and>
   count (rpcCleanConnCache (sample_cache [node 13 1 60, node 12 5 50, node 11 1 0] []) 7 100 8) ! 1 = 3 \<and>
   cleaned (rpcCleanConnCache (sample_cache [node 13 1 60, node 12 5 50, node 11 1 0] []) 7 100 8) = [] \<and>
   connHashList (rpcCleanConnCache (sample_cache [node 13 1 60, node 12 5 50, node 11 1 0] []) 7 160 8) ! 1
     = [] \<and>
   count (rpcCleanConnCache (sample_cache [node 13 1 60, node 12 5 50, node 11 1 0] []) 7 160 8) ! 1 = 0 \<and>
   cleaned (rpcCleanConnCache (sample_cache [node 13 1 60, node 12 5 50, node 11 1 0] []) 7 160 8)
     = [13, 12, 11]"
proof -
  have a: "arrays_ok (sample_cache [node 13 1 60, node 12 5 50, node 11 1 0] [])"
    by (simp add: arrays_ok_def sample_cache_def)
  have b: "count (sample_cache [node 13 1 60, node 12 5 50, node 11 1 0] []) ! 1 =
     int (length (connHashList (sample_cache [node 13 1 60, node 12 5 50, node 11 1 0] []) ! 1))"
    by (simp add: sample_cache_def)
  have c: "maxSessions (sample_cache [node 13 1 60, node 12 5 50, node 11 1 0] []) \<noteq> 0"
    by (simp add: sample_cache_def)
  have d: "pTimer (sample_cache [node 13 1 60, node 12 5 50, node 11 1 0] []) = 7"
    by (simp add: sample_cache_def)
  have e: "1 < length (connHashList (sample_cache [node 13 1 60, node 12 5 50, node 11 1 0] []))"
    by (simp add: sample_cache_def)
  have f: "expired (sample_cache [node 13 1 60, node 12 5 50, node 11 1 0] []) (node 11 1 0) 100"
    by (simp add: sample_cache_def node_def expired_def)
  from sweep_examines_head [OF a b c d e, of 100 8] sweep_examines_head [OF a b c d e, of 160 8]
    a b c d e f
  show ?thesis
    by (simp add: sample_cache_def node_def expired_def)
qed

subsection \<open>Calls of the cleanup callback\<close>

text \<open>
  C7. \<open>cleanFp\<close> is called once for each evicted entry and for nothing else. A \<open>put\<close>
  splits the former list of its bucket into what is kept and an evicted tail; a \<open>get\<close>
  splits the list into the entries ahead of the returned one, the returned entry (if any),
  the entries kept behind it and an evicted tail; a sweep splits every list into what is
  kept and an evicted tail. In each case the calls of \<open>cleanFp\<close> made by the operation
  are the payloads of the evicted tail, entry by entry, and an evicted tail begins with an
  entry that has reached the keep time: the entry a \<open>get\<close> returns is not among them.
  \<open>rpcCloseConnCache\<close> makes no call.
\<close>

theorem cleanFp_once_per_evicted_entry:
  assumes ok: "arrays_ok pCache"
  shows "(rpcAddConnIntoCache pCache d ipp portp ctp tp = Inr pCache1 \<longrightarrow>
          (\<exists>h kept gone. h < length (connHashList pCache) \<and>
             connHashList pCache ! h = kept @ gone \<and>
             connHashList pCache1 =
               (connHashList pCache)[h := \<lparr>ip = ipp, port = portp, connType = ctp, data = d, time = tp\<rparr> # kept] \<and>
             cleaned pCache1 = cleaned pCache @ map data gone \<and>
             (gone = [] \<or> expired pCache (hd gone) tp))) \<and>
         (rpcGetConnFromCache pCache ipg portg ctg tg = Inr (pData, pCache2) \<longrightarrow>
          (\<exists>h before after gone. h < length (connHashList pCache) \<and>
             connHashList pCache2 = (connHashList pCache)[h := before @ after] \<and>
             cleaned pCache2 = cleaned pCache @ map data gone \<and>
             (gone = [] \<or> expired pCache (hd gone) tg) \<and>
             (pData = 0 \<and> after = [] \<and> connHashList pCache ! h = before @ gone \<or>
              (\<exists>pNode. pData = data pNode \<and>
                 connHashList pCache ! h = before @ pNode # after @ gone)))) \<and>
         (\<exists>gone. length gone = length (connHashList pCache) \<and>
            (\<forall>h < length (connHashList pCache).
               connHashList pCache ! h =
                 connHashList (rpcCleanConnCache pCache tmrId ts tmr) ! h @ gone ! h \<and>
               (gone ! h = [] \<or> expired pCache (hd (gone ! h)) ts)) \<and>
            cleaned (rpcCleanConnCache pCache tmrId ts tmr) =
              cleaned pCache @ concat (map (map data) gone)) \<and>
         cleaned (rpcCloseConnCache pCache) = cleaned pCache"
proof (intro conjI impI)
  assume "rpcAddConnIntoCache pCache d ipp portp ctp tp = Inr pCache1"
  then show "\<exists>h kept gone. h < length (connHashList pCache) \<and>
             connHashList pCache ! h = kept @ gone \<and>
             connHashList pCache1 =
               (connHashList pCache)[h := \<lparr>ip = ipp, port = portp, connType = ctp, data = d, time = tp\<rparr> # kept] \<and>
             cleaned pCache1 = cleaned pCache @ map data gone \<and>
             (gone = [] \<or> expired pCache (hd gone) tp)"
    by (rule put_evicts [OF ok])
next
  assume "rpcGetConnFromCache pCache ipg portg ctg tg = Inr (pData, pCache2)"
  then show "\<exists>h before after gone. h < length (connHashList pCache) \<and>
             connHashList pCache2 = (connHashList pCache)[h := before @ after] \<and>
             cleaned pCache2 = cleaned pCache @ map data gone \<and>
             (gone = [] \<or> expired pCache (hd gone) tg) \<and>
             (pData = 0 \<and> after = [] \<and> connHashList pCache ! h = before @ gone \<or>
              (\<exists>pNode. pData = data pNode \<and>
                 connHashList pCache ! h = before @ pNode # after @ gone))"
    by (rule get_evicts [OF ok])
next
  show "\<exists>gone. length gone = length (connHashList pCache) \<and>
            (\<forall>h < length (connHashList pCache).
               connHashList pCache ! h =
                 connHashList (rpcCleanConnCache pCache tmrId ts tmr) ! h @ gone ! h \<and>
               (gone ! h = [] \<or> expired pCache (hd (gone ! h)) ts)) \<and>
            cleaned (rpcCleanConnCache pCache tmrId ts tmr) =
              cleaned pCache @ concat (map (map data) gone)"
    by (rule clean_evicts [OF ok])
next
  show "cleaned (rpcCloseConnCache pCache) = cleaned pCache"
    by (simp add: rpcCloseConnCache_def)
qed

theorem cleanFp_once_per_evicted_entry_witness:
  "arrays_ok (sample_cache [node 13 1 60, node 12 5 50, node 11 1 0] []) \<and>
   rpcAddConnIntoCache (sample_cache [node 13 1 60, node 12 5 50, node 11 1 0] []) 14 9 0 0 170
     = Inr (sample_cache [node 14 9 170] [13, 12, 11]) \<and>
   rpcGetConnFromCache (sample_cache [node 13 1 60, node 12 5 50, node 11 1 0] []) 5 0 0 100
     = Inr (12, sample_cache [node 13 1 60] [11]) \<and>
   (\<exists>h kept gone. h < length (connHashList (sample_cache [node 13 1 60, node 12 5 50, node 11 1 0] [])) \<and>
      connHashList (sample_cache [node 13 1 60, node 12 5 50, node 11 1 0] []) ! h = kept @ gone \<and>
      connHashList (sample_cache [node 14 9 170] [13, 12, 11]) =
        (connHashList (sample_cache [node 13 1 60, node 12 5 50, node 11 1 0] []))
          [h := \<lparr>ip = 9, port = 0, connType = 0, data = 14, time = 170\<rparr> # kept] \<and>
      cleaned (sample_cache [node 14 9 170] [13, 12, 11]) =
        cleaned (sample_cache [node 13 1 60, node 12 5 50, node 11 1 0] []) @ map data gone \<and>
      (gone = [] \<or> expired (sample_cache [node 13 1 60, node 12 5 50, node 11 1 0] []) (hd gone) 170)) \<and>
   (\<exists>h before after gone.
      h < length (connHashList (sample_cache [node 13 1 60, node 12 5 50, node 11 1 0] [])) \<and>
      connHashList (sample_cache [node 13 1 60] [11]) =
        (connHashList (sample_cache [node 13 1 60, node 12 5 50, node 11 1 0] []))[h := before @ after] \<and>
      cleaned (sample_cache [node 13 1 60] [11]) =
        cleaned (sample_cache [node 13 1 60, node 12 5 50, node 11 1 0] []) @ map data gone \<and>
      (gone = [] \<or> expired (sample_cache [node 13 1 60, node 12 5 50, node 11 1 0] []) (hd gone) 100) \<and>
      ((12 :: nat) = 0 \<and> after = [] \<and>
         connHashList (sample_cache [node 13 1 60, node 12 5 50, node 11 1 0] []) ! h = before @ gone \<or>
       (\<exists>pNode. 12 = data pNode \<and>
          connHashList (sample_cache [node 13 1 60, node 12 5 50, node 11 1 0] []) ! h
            = before @ pNode # after @ gone))) \<and>
   (\<exists>gone :: SConnHash list list.
      length gone = length (connHashList (sample_cache [node 13 1 60, node 12 5 50, node 11 1 0] [])) \<and>
      cleaned (rpcCleanConnCache (sample_cache [node 13 1 60, node 12 5 50, node 11 1 0] []) 7 160 8) =
        cleaned (sample_cache [node 13 1 60, node 12 5 50, node 11 1 0] []) @ concat (map (map data) gone)) \<and>
   cleaned (rpcCloseConnCache (sample_cache [node 13 1 60, node 12 5 50, node 11 1 0] [])) =
     cleaned (sample_cache [node 13 1 60, node 12 5 50, node 11 1 0] [])"
proof -
  have a: "arrays_ok (sample_cache [node 13 1 60, node 12 5 50, node 11 1 0] [])"
    by (simp add: arrays_ok_def sample_cache_def)
  have b: "rpcAddConnIntoCache (sample_cache [node 13 1 60, node 12 5 50, node 11 1 0] []) 14 9 0 0 170
     = Inr (sample_cache [node 14 9 170] [13, 12, 11])"
    by code_simp
  have c: "rpcGetConnFromCache (sample_cache [node 13 1 60, node 12 5 50, node 11 1 0] []) 5 0 0 100
     = Inr (12, sample_cache [node 13 1 60] [11])"
    by code_simp
  note T = cleanFp_once_per_evicted_entry [OF a,
      where d = 14 and ipp = 9 and portp = 0 and ctp = 0 and tp = 170
        and ?pCache1.0 = "sample_cache [node 14 9 170] [13, 12, 11]"
        and ipg = 5 and portg = 0 and ctg = 0 and tg = 100 and pData = 12
        and ?pCache2.0 = "sample_cache [node 13 1 60] [11]"
        and tmrId = 7 and ts = 160 and tmr = 8]
  note p1 = T [THEN conjunct1, THEN mp, OF b]
  note p2 = T [THEN conjunct2, THEN conjunct1, THEN mp, OF c]
  from T [THEN conjunct2, THEN conjunct2, THEN conjunct1]
  have p3: "\<exists>gone :: SConnHash list list. length gone = length (connHashList (sample_cache [node 13 1 60, node 12 5 50, node 11 1 0] [])) \<and>
      cleaned (rpcCleanConnCache (sample_cache [node 13 1 60, node 12 5 50, node 11 1 0] []) 7 160 8) =
        cleaned (sample_cache [node 13 1 60, node 12 5 50, node 11 1 0] []) @ concat (map (map data) gone)"
    by (elim exE conjE) (rule exI, rule conjI, assumption, assumption)
  note p4 = T [THEN conjunct2, THEN conjunct2, THEN conjunct2]
  from a b c p1 p2 p3 p4 show ?thesis
    by (intro conjI) assumption+
qed

subsection \<open>Order by recency\<close>

text \<open>
  C4, as amended. Take any sequence of \<open>put\<close>, \<open>get\<close> and sweep calls, one after the
  other, on a cache that \<open>rpcOpenConnCache\<close> returned, where the clock does not go back
  from one call to the next. In the state it leads to, the list of every bucket is ordered
  by recency: the time of each entry is at least the time of every entry behind it. The
  truncation of \<open>rpcRemoveExpiredNodes\<close>, from any position and at any clock value, leaves
  a prefix of the list, so it removes a suffix, and no entry it removes is younger than an
  entry it leaves.
\<close>

theorem buckets_ordered_by_recency:
  assumes run: "run (rpcOpenConnCache n k tmr) cs = Inr pCache"
    and mono: "sorted (map clock cs)"
    and h: "h < length (connHashList pCache)"
  shows "sorted_wrt (\<lambda>a b. time b \<le> time a) (connHashList pCache ! h) \<and>
         (\<exists>j. connHashList (rpcRemoveExpiredNodes pCache i h t) ! h = take j (connHashList pCache ! h) \<and>
            (\<forall>gone \<in> set (drop j (connHashList pCache ! h)).
               \<forall>kept \<in> set (take j (connHashList pCache ! h)). time gone \<le> time kept))"
proof -
  from mono have "sorted (0 # map clock cs)" by simp
  from run_ordered [OF open_arrays_ok open_counted open_ordered this run]
  obtain now where "ordered_until pCache now" ..
  from ordered_bucket(1) [OF this h]
  have srt: "sorted_wrt (\<lambda>a b. time b \<le> time a) (connHashList pCache ! h)" .
  define j where "j = (if i < length (connHashList pCache ! h) \<and>
      expired pCache (connHashList pCache ! h ! i) t then i else length (connHashList pCache ! h))"
  have "connHashList (rpcRemoveExpiredNodes pCache i h t) ! h = take j (connHashList pCache ! h)"
    using h by (simp add: remove_expired_eq j_def)
  moreover from sorted_wrt_take_drop [OF srt, of j]
  have "\<forall>gone \<in> set (drop j (connHashList pCache ! h)).
               \<forall>kept \<in> set (take j (connHashList pCache ! h)). time gone \<le> time kept" .
  ultimately show ?thesis using srt by blast
qed

theorem buckets_ordered_by_recency_witness:
  "run (rpcOpenConnCache 4 100 7) [Put 11 1 0 0 0, Put 12 5 0 0 50, Put 13 1 0 0 60]
     = Inr (sample_cache [node 13 1 60, node 12 5 50, node 11 1 0] []) \<and>
   sorted (map clock [Put 11 1 0 0 0, Put 12 5 0 0 50, Put 13 1 0 0 60]) \<and>
   1 < length (connHashList (sample_cache [node 13 1 60, node 12 5 50, node 11 1 0] [])) \<and>
   sorted_wrt (\<lambda>a b. time b \<le> time a)
     (connHashList (sample_cache [node 13 1 60, node 12 5 50, node 11 1 0] []) ! 1) \<and>
   (\<exists>j. connHashList (rpcRemoveExpiredNodes
            (sample_cache [node 13 1 60, node 12 5 50, node 11 1 0] []) 2 1 100) ! 1
          = take j (connHashList (sample_cache [node 13 1 60, node 12 5 50, node 11 1 0] []) ! 1))"
proof -
  have a: "run (rpcOpenConnCache 4 100 7) [Put 11 1 0 0 0, Put 12 5 0 0 50, Put 13 1 0 0 60]
     = Inr (sample_cache [node 13 1 60, node 12 5 50, node 11 1 0] [])"
    by (rule sample_runs(3))
  have b: "sorted (map clock [Put 11 1 0 0 0, Put 12 5 0 0 50, Put 13 1 0 0 60])"
    by simp
  have c: "1 < length (connHashList (sample_cache [node 13 1 60, node 12 5 50, node 11 1 0] []))"
    by (simp add: sample_cache_def)
  note T = buckets_ordered_by_recency [OF a b c, of 2 100]
  note p1 = T [THEN conjunct1]
  from T [THEN conjunct2]
  have p2: "\<exists>j. connHashList (rpcRemoveExpiredNodes
            (sample_cache [node 13 1 60, node 12 5 50, node 11 1 0] []) 2 1 100) ! 1
          = take j (connHashList (sample_cache [node 13 1 60, node 12 5 50, node 11 1 0] []) ! 1)"
    by blast
  from a b c p1 p2 show ?thesis
    by (intro conjI) assumption+
qed

text \<open>
  C4 as stated, for every reachable state, fails where the clock goes back: the code
  stamps an entry with the clock it reads and does not compare it with the entries of the
  bucket. After \<open>put\<close>s at the clock values 60, 40 and 45 the bucket holds the times 45,
  40, 60 from the head on, so the second entry is older than the one behind it. The
  \<open>get\<close> of an absent key at clock 142 then cuts the list at the entry of time 40: it
  evicts the entry of time 60, which has not reached the keep time, and leaves the older
  entry of time 45.
\<close>

theorem order_broken_by_clock:
  "run (rpcOpenConnCache 4 100 7) [Put 14 1 0 0 60, Put 13 5 0 0 40, Put 15 9 0 0 45]
     = Inr (sample_cache [node 15 9 45, node 13 5 40, node 14 1 60] []) \<and>
   time (connHashList (sample_cache [node 15 9 45, node 13 5 40, node 14 1 60] []) ! 1 ! 1)
     < time (connHashList (sample_cache [node 15 9 45, node 13 5 40, node 14 1 60] []) ! 1 ! 2) \<and>
   rpcGetConnFromCache (sample_cache [node 15 9 45, node 13 5 40, node 14 1 60] []) 13 0 0 142
     = Inr (0, sample_cache [node 15 9 45] [13, 14]) \<and>
   \<not> expired (sample_cache [node 15 9 45, node 13 5 40, node 14 1 60] []) (node 14 1 60) 142 \<and>
   time (node 15 9 45) < time (node 14 1 60)"
proof (intro conjI)
  show "run (rpcOpenConnCache 4 100 7) [Put 14 1 0 0 60, Put 13 5 0 0 40, Put 15 9 0 0 45]
     = Inr (sample_cache [node 15 9 45, node 13 5 40, node 14 1 60] [])"
    by code_simp
  show "rpcGetConnFromCache (sample_cache [node 15 9 45, node 13 5 40, node 14 1 60] []) 13 0 0 142
     = Inr (0, sample_cache [node 15 9 45] [13, 14])"
    by code_simp
qed (simp_all add: sample_cache_def node_def expired_def)

subsection \<open>The choice of a dnode\<close>

text \<open>
  C9, as amended. \<open>balanceAllocVnodes\<close> considers exactly the dnodes with
  \<open>numOfTotalVnodes > 0\<close> and \<open>openVnodes < numOfTotalVnodes\<close>. If there is none, it returns
  \<open>TSDB_CODE_NO_ENOUGH_DNODES\<close> and the vgroup is as before. Otherwise it selects one of
  them whose single-precision quotient \<open>(float)openVnodes / numOfTotalVnodes\<close> is minimal
  among them, writes the id and the two addresses of that dnode into slot 0 of the vgroup,
  and returns \<open>TSDB_CODE_SUCCESS\<close>.
\<close>

theorem balanceAllocVnodes_minimal_float_usage:
  "if filter has_room dnodes = []
   then balanceAllocVnodes dnodes pVgroup = (TSDB_CODE_NO_ENOUGH_DNODES, pVgroup)
   else \<exists>pSelDnode \<in> set (filter has_room dnodes).
          balanceAllocVnodes dnodes pVgroup =
            (TSDB_CODE_SUCCESS,
             pVgroup\<lparr>vnodeGid := (vnodeGid pVgroup)
                (0 := \<lparr>gid_dnodeId = dnodeId pSelDnode,
                       gid_privateIp = privateIp pSelDnode,
                       gid_publicIp = publicIp pSelDnode\<rparr>)\<rparr>) \<and>
          (\<forall>pDnode \<in> set (filter has_room dnodes). usageOf pSelDnode \<le> usageOf pDnode)"
proof (cases "filter has_room dnodes = []")
  case True
  then have "scanDnodes dnodes None 1 = None"
    by (intro scanDnodes_keeps) simp
  with True show ?thesis by (simp add: balanceAllocVnodes_def)
next
  case False
  then obtain d where d: "d \<in> set (filter has_room dnodes)"
    by (cases "filter has_room dnodes") auto
  then have "usageOf d \<le> 1" by (intro usageOf_le_one) simp
  with d have "\<exists>d \<in> set (filter has_room dnodes). usageOf d \<le> 1" ..
  from scanDnodes_selects [OF this, of None] obtain s where s: "s \<in> set (filter has_room dnodes)"
    "scanDnodes dnodes None 1 = Some s"
    "\<forall>d \<in> set (filter has_room dnodes). usageOf s \<le> usageOf d"
    by blast
  from False s show ?thesis
    by (simp only: if_False) (rule bexI [of _ s], simp add: balanceAllocVnodes_def, assumption)
qed

theorem balanceAllocVnodes_minimal_float_usage_witness:
  "filter has_room [sample_dnode 1 3 10, sample_dnode 2 1 10, sample_dnode 3 5 5, sample_dnode 4 0 0]
     = [sample_dnode 1 3 10, sample_dnode 2 1 10] \<and>
   (\<exists>pSelDnode. pSelDnode \<in> set [sample_dnode 1 3 10, sample_dnode 2 1 10] \<and>
      balanceAllocVnodes
        [sample_dnode 1 3 10, sample_dnode 2 1 10, sample_dnode 3 5 5, sample_dnode 4 0 0] sample_vgroup =
        (TSDB_CODE_SUCCESS,
         sample_vgroup\<lparr>vnodeGid := (vnodeGid sample_vgroup)
            (0 := \<lparr>gid_dnodeId = dnodeId pSelDnode,
                   gid_privateIp = privateIp pSelDnode,
                   gid_publicIp = publicIp pSelDnode\<rparr>)\<rparr>) \<and>
      usageOf pSelDnode \<le> usageOf (sample_dnode 1 3 10) \<and>
      usageOf pSelDnode \<le> usageOf (sample_dnode 2 1 10)) \<and>
   filter has_room [sample_dnode 3 5 5, sample_dnode 4 0 0] = [] \<and>
   balanceAllocVnodes [sample_dnode 3 5 5, sample_dnode 4 0 0] sample_vgroup =
     (TSDB_CODE_NO_ENOUGH_DNODES, sample_vgroup)"
proof -
  have a: "filter has_room [sample_dnode 1 3 10, sample_dnode 2 1 10, sample_dnode 3 5 5, sample_dnode 4 0 0]
     = [sample_dnode 1 3 10, sample_dnode 2 1 10]"
    by (simp add: sample_dnode_def)
  have b: "filter has_room [sample_dnode 3 5 5, sample_dnode 4 0 0] = []"
    by (simp add: sample_dnode_def)
  from balanceAllocVnodes_minimal_float_usage
    [of "[sample_dnode 1 3 10, sample_dnode 2 1 10, sample_dnode 3 5 5, sample_dnode 4 0 0]" sample_vgroup]
  obtain s where s: "s \<in> set [sample_dnode 1 3 10, sample_dnode 2 1 10]"
    "balanceAllocVnodes
        [sample_dnode 1 3 10, sample_dnode 2 1 10, sample_dnode 3 5 5, sample_dnode 4 0 0] sample_vgroup =
        (TSDB_CODE_SUCCESS,
         sample_vgroup\<lparr>vnodeGid := (vnodeGid sample_vgroup)
            (0 := \<lparr>gid_dnodeId = dnodeId s, gid_privateIp = privateIp s,
                   gid_publicIp = publicIp s\<rparr>)\<rparr>)"
    "\<forall>d \<in> set [sample_dnode 1 3 10, sample_dnode 2 1 10]. usageOf s \<le> usageOf d"
    unfolding a by auto
  from s(3) have c: "usageOf s \<le> usageOf (sample_dnode 1 3 10)"
    "usageOf s \<le> usageOf (sample_dnode 2 1 10)"
    by simp_all
  have r: "\<exists>pSelDnode. pSelDnode \<in> set [sample_dnode 1 3 10, sample_dnode 2 1 10] \<and>
      balanceAllocVnodes
        [sample_dnode 1 3 10, sample_dnode 2 1 10, sample_dnode 3 5 5, sample_dnode 4 0 0] sample_vgroup =
        (TSDB_CODE_SUCCESS,
         sample_vgroup\<lparr>vnodeGid := (vnodeGid sample_vgroup)
            (0 := \<lparr>gid_dnodeId = dnodeId pSelDnode,
                   gid_privateIp = privateIp pSelDnode,
                   gid_publicIp = publicIp pSelDnode\<rparr>)\<rparr>) \<and>
      usageOf pSelDnode \<le> usageOf (sample_dnode 1 3 10) \<and>
      usageOf pSelDnode \<le> usageOf (sample_dnode 2 1 10)"
    using s(1,2) c by (intro exI [of _ s] conjI)
  from balanceAllocVnodes_minimal_float_usage [of "[sample_dnode 3 5 5, sample_dnode 4 0 0]" sample_vgroup]
  have e: "balanceAllocVnodes [sample_dnode 3 5 5, sample_dnode 4 0 0] sample_vgroup =
     (TSDB_CODE_NO_ENOUGH_DNODES, sample_vgroup)"
    unfolding b by simp
  from a r b e show ?thesis
    by (intro conjI) assumption+
qed

text \<open>
  C9 as stated, with the ratio \<open>openVnodes / numOfTotalVnodes\<close> itself, fails where two
  ratios round to one \<open>float\<close>: 4140 / 4141 is less than 4141 / 4142, both quotients are
  the same \<open>float\<close>, and \<open>usage <= vnodeUsage\<close> lets the later dnode, of the greater
  ratio, replace the earlier one.
\<close>

theorem balanceAllocVnodes_float_tie:
  "balanceAllocVnodes [sample_dnode 1 4140 4141, sample_dnode 2 4141 4142] sample_vgroup =
     (TSDB_CODE_SUCCESS,
      sample_vgroup\<lparr>vnodeGid := (vnodeGid sample_vgroup)
         (0 := \<lparr>gid_dnodeId = 2, gid_privateIp = 0, gid_publicIp = 0\<rparr>)\<rparr>) \<and>
   (of_int (openVnodes (sample_dnode 1 4140 4141)) :: rat) / of_int (numOfTotalVnodes (sample_dnode 1 4140 4141))
     < of_int (openVnodes (sample_dnode 2 4141 4142)) / of_int (numOfTotalVnodes (sample_dnode 2 4141 4142))"
proof -
  have "scanDnodes [sample_dnode 1 4140 4141, sample_dnode 2 4141 4142] None 1
          = Some (sample_dnode 2 4141 4142)"
    by code_simp
  then show ?thesis
    by (simp add: balanceAllocVnodes_def sample_dnode_def)
qed

end
